theory Spec2Isabelle
  imports Complex_Main "HOL-Library.Word"
begin

section \<open>Bytes, C strings and character classes\<close>

text \<open>
  The characters of the four C programs are bytes. Whether plain \<^verbatim>\<open>char\<close> is signed is
  left to the platform by the C standard, so every function that converts a \<^verbatim>\<open>char\<close> to
  \<^verbatim>\<open>int\<close> takes the signedness as its first argument (\<open>True\<close>: signed, as on x86-64
  Linux).
\<close>

type_synonym byte = "8 word"

definition char_val :: "bool \<Rightarrow> byte \<Rightarrow> int" where
  "char_val sg c = (if sg then sint c else uint c)"

text \<open>
  A buffer is the list of its bytes. A C string stored in a buffer ends before the first
  NUL byte; a buffer without a NUL byte is read to its end (its terminator is then the byte
  that follows the list).
\<close>

definition c_string :: "byte list \<Rightarrow> byte list" where
  "c_string buf = takeWhile (\<lambda>b. b \<noteq> 0) buf"

definition strlen :: "byte list \<Rightarrow> nat" where
  "strlen buf = length (c_string buf)"

text \<open>\<^verbatim>\<open>isalpha\<close>, \<^verbatim>\<open>islower\<close> of \<^verbatim>\<open>ctype.h\<close> in the "C" locale (the programs
  never call \<^verbatim>\<open>setlocale\<close>), on the \<^verbatim>\<open>int\<close> value of the character. Only the 52
  ASCII letters are alphabetic; a negative value (a byte above 127 where \<^verbatim>\<open>char\<close> is
  signed) is not.\<close>

definition isupper :: "int \<Rightarrow> bool" where
  "isupper v = (65 \<le> v \<and> v \<le> 90)"

definition islower :: "int \<Rightarrow> bool" where
  "islower v = (97 \<le> v \<and> v \<le> 122)"

definition isalpha :: "int \<Rightarrow> bool" where
  "isalpha v = (isupper v \<or> islower v)"

text \<open>The operator \<^verbatim>\<open>%\<close> of C on \<^verbatim>\<open>int\<close>: the remainder of the division that
  truncates towards zero, so its sign is the sign of the dividend.\<close>

definition c_rem :: "int \<Rightarrow> int \<Rightarrow> int" where
  "c_rem a b = sgn a * (\<bar>a\<bar> mod \<bar>b\<bar>)"

section \<open>wizard.c: \<^verbatim>\<open>decode_caesar_cipher\<close>\<close>

text \<open>
  The body of the \<^verbatim>\<open>for\<close> loop for one character \<open>c\<close>:
  \<^verbatim>\<open>if (isalpha(c)) { char base = islower(c) ? 'a' : 'A';
       decoded[decoded_index] = base + (c - base - key % 26 + 26) % 26; }
  else decoded[decoded_index] = c;\<close>
\<close>

definition decode_char :: "bool \<Rightarrow> int \<Rightarrow> byte \<Rightarrow> byte" where
  "decode_char sg key c =
     (if isalpha (char_val sg c) then
        (let base = (if islower (char_val sg c) then 97 else 65)
         in word_of_int (base + c_rem (char_val sg c - base - c_rem key 26 + 26) 26))
      else c)"

text \<open>
  The loop
  \<^verbatim>\<open>for (size_t i = 1; i < encoded_len && decoded_index < max_len - 1; ++i)\<close>
  followed by \<^verbatim>\<open>decoded[decoded_index] = '\0'\<close>.
\<close>

function decode_loop ::
  "bool \<Rightarrow> byte list \<Rightarrow> int \<Rightarrow> nat \<Rightarrow> int \<Rightarrow> nat \<Rightarrow> nat \<Rightarrow> byte list \<Rightarrow> byte list" where
  "decode_loop sg encoded key encoded_len max_len i decoded_index decoded =
     (if i < encoded_len \<and> int decoded_index < max_len - 1 then
        decode_loop sg encoded key encoded_len max_len (i + 1) (decoded_index + 1)
          (decoded[decoded_index := decode_char sg key (encoded ! i)])
      else decoded[decoded_index := 0])"
  by pat_completeness auto
termination
  by (relation "measure (\<lambda>(sg, encoded, key, encoded_len, max_len, i, decoded_index, decoded).
        encoded_len - i)") auto

declare decode_loop.simps [simp del]

text \<open>
  The function. \<open>encoded\<close> is the source buffer, \<open>decoded\<close> the destination buffer as it
  is before the call; the result is the destination buffer after the call. The pointer
  checks of the first line do not arise (both buffers exist); \<^verbatim>\<open>max_len <= 0\<close> returns
  with the destination untouched. \<^verbatim>\<open>memset\<close> zeroes the first \<open>max_len\<close> bytes.
\<close>

definition decode_caesar_cipher :: "bool \<Rightarrow> byte list \<Rightarrow> byte list \<Rightarrow> int \<Rightarrow> byte list" where
  "decode_caesar_cipher sg encoded decoded max_len =
     (if max_len \<le> 0 then decoded
      else
        (let decoded0 = replicate (nat max_len) 0 @ drop (nat max_len) decoded;
             encoded_len = strlen encoded
         in if encoded_len > 0 then
              decode_loop sg encoded (char_val sg (encoded ! 0)) encoded_len max_len 1 0 decoded0
            else decoded0[0 := 0]))"

subsection \<open>The encoder, as the specification words it\<close>

text \<open>
  The encoder is not part of the sources (the Dungeon Master's challenge routine is an
  external object file). \<open>spec_encode\<close> follows the specification's sentence: every
  alphabetic byte is shifted forward by \<open>K mod 26\<close> within its case, every other byte is
  unchanged, and the key byte is put in front.
\<close>

definition spec_encode_char :: "int \<Rightarrow> byte \<Rightarrow> byte" where
  "spec_encode_char k c =
     (if isupper (uint c) then word_of_int (65 + (uint c - 65 + k) mod 26)
      else if islower (uint c) then word_of_int (97 + (uint c - 97 + k) mod 26)
      else c)"

definition spec_encode :: "byte \<Rightarrow> byte list \<Rightarrow> byte list" where
  "spec_encode K M = K # map (spec_encode_char (uint K mod 26)) M"

section \<open>The shared memory block and the signals\<close>

text \<open>
  Modelled from the spec: \<^verbatim>\<open>struct Dungeon\<close> is declared in \<^verbatim>\<open>dungeon_info.h\<close>, which is
  not among the sources. The record has the fields that the four programs access, with the
  types the specification's data model gives them; the fields of the nested structs keep
  the name of their struct as a prefix (\<^verbatim>\<open>trap.locked\<close> is \<open>trap_locked\<close>). The
  \<^verbatim>\<open>float\<close> of \<^verbatim>\<open>rogue.pick\<close> and of the Rogue's search bounds is idealised to
  \<open>real\<close>: the rounding of binary floating-point arithmetic is not modelled.
\<close>

record Dungeon =
  dungeonPID :: int
  running :: bool
  enemy_health :: "32 word"
  barbarian_attack :: "32 word"
  trap_locked :: bool
  trap_direction :: byte
  rogue_pick :: real
  barrier_spell :: "byte list"
  wizard_spell :: "byte list"
  treasure :: "byte list"
  spoils :: "byte list"

text \<open>
  The signal numbers \<^verbatim>\<open>DUNGEON_SIGNAL\<close> and \<^verbatim>\<open>SEMAPHORE_SIGNAL\<close> are macros of
  \<^verbatim>\<open>dungeon_settings.h\<close> (not among the sources); the handlers only compare \<open>signum\<close> with
  them and with \<^verbatim>\<open>SIGINT\<close>.
\<close>

datatype signal = SIGINT | DUNGEON_SIGNAL | SEMAPHORE_SIGNAL | OTHER_SIGNAL

text \<open>
  What a handler does to the world outside its own variables: the stores into the shared
  block and the calls of the semaphore and sleep functions, in program order.
\<close>

datatype lever = Lever1 | Lever2

datatype effect =
    Write_pick real \<comment> \<open>\<^verbatim>\<open>dungeon_ptr->rogue.pick = v\<close>\<close>
  | Write_direction byte \<comment> \<open>\<^verbatim>\<open>dungeon_ptr->trap.direction = c\<close>\<close>
  | Clear_spoils \<comment> \<open>\<^verbatim>\<open>memset(dungeon_ptr->spoils, '\0', sizeof(dungeon_ptr->spoils))\<close>\<close>
  | Write_spoil nat byte \<comment> \<open>\<^verbatim>\<open>dungeon_ptr->spoils[i] = c\<close>\<close>
  | Sem_wait lever
  | Sem_trywait lever
  | Sem_post lever
  | Usleep nat


section \<open>rogue.c: \<^verbatim>\<open>rogue_signal_handler\<close>\<close>

text \<open>
  The handler polls the shared block while the Dungeon Master writes to it, and its own
  \<open>exit_flag\<close> can be set by a \<^verbatim>\<open>SIGINT\<close> that arrives while it runs. Each pass of a
  loop therefore takes the values that its reads return from an observation; a loop
  consumes one observation per test of its condition and yields \<open>None\<close> when the
  observations run out before it has left.
\<close>

subsection \<open>The trap: binary search (lines 105 to 189)\<close>

record trap_obs =
  o_locked :: bool \<comment> \<open>\<^verbatim>\<open>dungeon_ptr->trap.locked\<close> in the loop condition\<close>
  o_running :: bool \<comment> \<open>\<^verbatim>\<open>dungeon_ptr->running\<close> in the loop condition\<close>
  o_exit_flag :: bool \<comment> \<open>\<^verbatim>\<open>exit_flag != 0\<close> in the loop condition\<close>
  o_timed_out :: bool
    \<comment> \<open>\<^verbatim>\<open>difftime(time(NULL), loop_start_time) > (SECONDS_TO_PICK - 0.5)\<close>\<close>
  o_direction :: byte \<comment> \<open>\<^verbatim>\<open>current_direction\<close>\<close>
  o_pick :: real \<comment> \<open>\<^verbatim>\<open>current_pick\<close>\<close>

datatype loop_ctl = Break | Continue

text \<open>The body of the \<^verbatim>\<open>while\<close> loop (lines 132 to 171) on the bounds
  \<open>(current_low, current_high)\<close>.\<close>

definition trap_body :: "trap_obs \<Rightarrow> real \<times> real \<Rightarrow> loop_ctl \<times> (real \<times> real) \<times> effect list" where
  "trap_body ob b =
     (let current_low = fst b; current_high = snd b in
      if o_timed_out ob then (Break, (current_low, current_high), [])
      else if o_direction ob = of_char CHR ''-'' then (Break, (current_low, current_high), [])
      else if o_direction ob = of_char CHR ''u'' \<or> o_direction ob = of_char CHR ''d'' then
        (let current_low' =
               (if o_direction ob = of_char CHR ''u'' \<and> o_pick ob > current_low
                then o_pick ob else current_low);
             current_high' =
               (if o_direction ob \<noteq> of_char CHR ''u'' \<and> o_pick ob < current_high
                then o_pick ob else current_high)
         in if current_high' > current_low' \<and> current_high' - current_low' > 1 / 1000000 then
              (Continue, (current_low', current_high'),
               [Write_pick (current_low' + (current_high' - current_low') / 2),
                Write_direction (of_char CHR ''t'')])
            else (Break, (current_low', current_high'), []))
      else (Continue, (current_low, current_high), []))"

text \<open>The loop
  \<^verbatim>\<open>while (dungeon_ptr->trap.locked && dungeon_ptr->running && exit_flag == 0)\<close>;
  \<open>ws\<close> collects the effects so far.\<close>

fun trap_loop :: "trap_obs list \<Rightarrow> real \<times> real \<Rightarrow> effect list \<Rightarrow> ((real \<times> real) \<times> effect list) option" where
  "trap_loop [] b ws = None"
| "trap_loop (ob # obs) b ws =
     (if o_locked ob \<and> o_running ob \<and> \<not> o_exit_flag ob then
        (case trap_body ob b of
           (Break, b', w) \<Rightarrow> Some (b', ws @ w)
         | (Continue, b', w) \<Rightarrow> trap_loop obs b' (ws @ w))
      else Some (b, ws))"

text \<open>The reset of lines 114 to 124; \<open>MAX_PICK_ANGLE\<close> is a macro of
  \<^verbatim>\<open>dungeon_settings.h\<close> and is a parameter here.\<close>

definition reset_bounds :: "real \<Rightarrow> byte \<Rightarrow> real \<times> real \<Rightarrow> real \<times> real" where
  "reset_bounds MAX_PICK_ANGLE initial_direction b =
     (if initial_direction \<noteq> of_char CHR ''u'' \<and> initial_direction \<noteq> of_char CHR ''d''
         \<and> initial_direction \<noteq> of_char CHR ''-''
      then (0, MAX_PICK_ANGLE) else b)"

subsection \<open>The treasure room (lines 192 to 231)\<close>

record treasure_obs =
  t_running :: bool \<comment> \<open>\<^verbatim>\<open>dungeon_ptr->running\<close> in the loop condition\<close>
  t_exit_flag :: bool \<comment> \<open>\<^verbatim>\<open>exit_flag != 0\<close> in the loop condition\<close>
  t_timed_out :: bool
    \<comment> \<open>\<^verbatim>\<open>difftime(time(NULL), treasure_start_time) > TIME_TREASURE_AVAILABLE\<close>\<close>
  t_treasure_test :: "byte list" \<comment> \<open>\<^verbatim>\<open>dungeon_ptr->treasure\<close> when line 210 tests it\<close>
  t_treasure_copy :: "byte list" \<comment> \<open>\<^verbatim>\<open>dungeon_ptr->treasure\<close> when line 212 copies from it\<close>

text \<open>The loop of lines 201 to 217. The result is the final \<open>spoils_count\<close> and the
  effects.\<close>

fun collect_loop :: "treasure_obs list \<Rightarrow> nat \<Rightarrow> effect list \<Rightarrow> (nat \<times> effect list) option" where
  "collect_loop [] spoils_count ws = None"
| "collect_loop (ob # obs) spoils_count ws =
     (if t_running ob \<and> \<not> t_exit_flag ob \<and> spoils_count < 4 then
        (if t_timed_out ob then Some (spoils_count, ws)
         else if t_treasure_test ob ! spoils_count \<noteq> 0 then
           collect_loop obs (spoils_count + 1)
             (ws @ [Write_spoil spoils_count (t_treasure_copy ob ! spoils_count)])
         else collect_loop obs spoils_count ws)
      else Some (spoils_count, ws))"

text \<open>The branch for \<^verbatim>\<open>SEMAPHORE_SIGNAL\<close>: clear the spoils, then collect.\<close>

definition collect_treasure :: "treasure_obs list \<Rightarrow> (nat \<times> effect list) option" where
  "collect_treasure obs = collect_loop obs 0 [Clear_spoils]"

subsection \<open>The handler\<close>

text \<open>The variables of the process that outlive a call: the flag set on \<^verbatim>\<open>SIGINT\<close> and the
  two \<^verbatim>\<open>static\<close> bounds of the handler.\<close>

record rogue_state =
  rs_exit_flag :: bool
  rs_current_low :: real
  rs_current_high :: real

text \<open>What the reads of one call return.\<close>

record rogue_env =
  r_running :: bool \<comment> \<open>\<^verbatim>\<open>dungeon_ptr->running\<close> at line 102\<close>
  r_locked :: bool \<comment> \<open>\<^verbatim>\<open>dungeon_ptr->trap.locked\<close> at line 108\<close>
  r_direction :: byte \<comment> \<open>\<^verbatim>\<open>initial_direction\<close>, line 114\<close>
  r_trap :: "trap_obs list" \<comment> \<open>the passes of the search loop\<close>
  r_locked_after :: bool \<comment> \<open>\<^verbatim>\<open>dungeon_ptr->trap.locked\<close> at line 175\<close>
  r_treasure :: "treasure_obs list" \<comment> \<open>the passes of the collection loop\<close>

definition rogue_signal_handler ::
  "real \<Rightarrow> signal \<Rightarrow> rogue_env \<Rightarrow> rogue_state \<Rightarrow> (rogue_state \<times> effect list) option" where
  "rogue_signal_handler MAX_PICK_ANGLE signum env st =
     (if signum = SIGINT then Some (st\<lparr>rs_exit_flag := True\<rparr>, [])
      else if rs_exit_flag st then Some (st, [])
      else if \<not> r_running env then Some (st, [])
      else if signum = DUNGEON_SIGNAL then
        (if r_locked env then
           (case trap_loop (r_trap env)
                   (reset_bounds MAX_PICK_ANGLE (r_direction env) (rs_current_low st, rs_current_high st)) []
            of None \<Rightarrow> None
             | Some (b, ws) \<Rightarrow>
                 if \<not> r_locked_after env
                 then Some (st\<lparr>rs_current_low := 0, rs_current_high := MAX_PICK_ANGLE\<rparr>, ws)
                 else Some (st\<lparr>rs_current_low := fst b, rs_current_high := snd b\<rparr>, ws))
         else Some (st\<lparr>rs_current_low := 0, rs_current_high := MAX_PICK_ANGLE\<rparr>, []))
      else if signum = SEMAPHORE_SIGNAL then
        (case collect_treasure (r_treasure env) of
           None \<Rightarrow> None
         | Some (spoils_count, ws) \<Rightarrow> Some (st, ws))
      else Some (st, []))"


section \<open>barbarian.c and wizard.c: the signal handlers\<close>

subsection \<open>Holding a lever\<close>

text \<open>What one test of the condition of the holding loop reads:
  \<^verbatim>\<open>while (dungeon_ptr->running && (dungeon_ptr->spoils[3] == '\0') && exit_flag == 0)\<close>.\<close>

record hold_obs =
  h_running :: bool
  h_spoil3 :: byte
  h_exit_flag :: bool

text \<open>
  The loop sleeps once per pass. The result is the list of effects and whether the loop
  has been left; it has not when the observations run out first.
\<close>

fun hold_loop :: "hold_obs list \<Rightarrow> effect list \<Rightarrow> effect list \<times> bool" where
  "hold_loop [] ws = (ws, False)"
| "hold_loop (ob # obs) ws =
     (if h_running ob \<and> h_spoil3 ob = 0 \<and> \<not> h_exit_flag ob
      then hold_loop obs (ws @ [Usleep 100000])
      else (ws, True))"

text \<open>The loop and the \<^verbatim>\<open>sem_post\<close> that follows it. The value that \<^verbatim>\<open>sem_post\<close> returns
  only selects the message printed.\<close>

definition hold_and_release :: "lever \<Rightarrow> hold_obs list \<Rightarrow> effect list \<times> bool" where
  "hold_and_release l obs =
     (case hold_loop obs [] of
        (ws, True) \<Rightarrow> (ws @ [Sem_post l], True)
      | (ws, False) \<Rightarrow> (ws, False))"

text \<open>A call of \<^verbatim>\<open>sem_wait\<close> returns 0, returns -1, or has not returned.\<close>

datatype wait_result = Acquired | Failed | Blocked

text \<open>\<^verbatim>\<open>if (sem_wait(lever1_sem) == 0) { hold; post } else { usleep(100); }\<close>, the
  statement that both handlers share.\<close>

definition wait_lever1 :: "wait_result \<Rightarrow> hold_obs list \<Rightarrow> effect list \<times> bool" where
  "wait_lever1 r obs =
     (case r of
        Acquired \<Rightarrow> (Sem_wait Lever1 # fst (hold_and_release Lever1 obs),
                     snd (hold_and_release Lever1 obs))
      | Failed \<Rightarrow> ([Sem_wait Lever1, Usleep 100], True)
      | Blocked \<Rightarrow> ([Sem_wait Lever1], False))"

subsection \<open>\<^verbatim>\<open>barbarian_signal_handler\<close>\<close>

text \<open>What the semaphore call and the polling reads of one call of a handler return.\<close>

record lever_env =
  l_trywait :: bool \<comment> \<open>\<^verbatim>\<open>sem_trywait(lever2_sem) == 0\<close> (Wizard only)\<close>
  l_wait :: wait_result \<comment> \<open>\<^verbatim>\<open>sem_wait(lever1_sem)\<close>\<close>
  l_hold :: "hold_obs list"

text \<open>
  The handler takes the signal, the process's \<open>exit_flag\<close> and the shared block as it is
  when the handler reads it, and gives the shared block after its stores, its calls in
  program order, and whether it has returned. \<^verbatim>\<open>dungeon_ptr\<close> is mapped for as long as the
  handlers are installed, so the pointer tests never fire.
\<close>

definition barbarian_signal_handler ::
  "signal \<Rightarrow> bool \<Rightarrow> lever_env \<Rightarrow> Dungeon \<Rightarrow> Dungeon \<times> effect list \<times> bool" where
  "barbarian_signal_handler signum exit_flag env d =
     (if exit_flag then (d, [], True)
      else if \<not> running d then (d, [], True)
      else if signum = DUNGEON_SIGNAL then
        (d\<lparr>barbarian_attack := enemy_health d\<rparr>, [Usleep 100], True)
      else if signum = SEMAPHORE_SIGNAL then
        (d, wait_lever1 (l_wait env) (l_hold env))
      else (d, [Usleep 100], True))"

subsection \<open>\<^verbatim>\<open>wizard_signal_handler\<close>\<close>

text \<open>\<^verbatim>\<open>strncpy(dst, src, n)\<close>: the string in \<open>src\<close>, cut or padded with NUL bytes to \<open>n\<close>
  bytes, replaces the first \<open>n\<close> bytes of \<open>dst\<close>.\<close>

definition strncpy :: "byte list \<Rightarrow> byte list \<Rightarrow> nat \<Rightarrow> byte list" where
  "strncpy dst src n =
     take n (c_string src) @ replicate (n - strlen src) 0 @ drop n dst"

text \<open>
  \<open>SPELL_BUFFER_SIZE\<close> is a macro of \<^verbatim>\<open>dungeon_settings.h\<close> and a parameter here;
  \<open>decoded_spell\<close> is what the local array of that name holds before it is initialised.
\<close>

definition wizard_signal_handler ::
  "bool \<Rightarrow> nat \<Rightarrow> byte list \<Rightarrow> signal \<Rightarrow> bool \<Rightarrow> lever_env \<Rightarrow> Dungeon
     \<Rightarrow> Dungeon \<times> effect list \<times> bool" where
  "wizard_signal_handler sg SPELL_BUFFER_SIZE decoded_spell signum exit_flag env d =
     (if exit_flag then (d, [], True)
      else if \<not> running d then (d, [], True)
      else if signum = DUNGEON_SIGNAL then
        (let decoded_spell' =
               decode_caesar_cipher sg (barrier_spell d) decoded_spell (int SPELL_BUFFER_SIZE)
         in (d\<lparr>wizard_spell :=
                  (strncpy (wizard_spell d) decoded_spell' (SPELL_BUFFER_SIZE - 1))
                    [SPELL_BUFFER_SIZE - 1 := 0]\<rparr>,
             [Usleep 100], True))
      else if signum = SEMAPHORE_SIGNAL then
        (if l_trywait env then
           (d, Sem_trywait Lever2 # fst (hold_and_release Lever2 (l_hold env)),
               snd (hold_and_release Lever2 (l_hold env)))
         else
           (d, Sem_trywait Lever2 # fst (wait_lever1 (l_wait env) (l_hold env)),
               snd (wait_lever1 (l_wait env) (l_hold env))))
      else (d, [Usleep 100], True))"


section \<open>The two levers under interleaving\<close>

text \<open>
  The semaphore calls of the three character processes, interleaved. \<^verbatim>\<open>game.c\<close> creates both
  semaphores with the value 1 (lines 184 and 190). Each process is at one of the places of
  its handler where a semaphore call is pending or a lever is held; a handler cannot be
  entered again for \<^verbatim>\<open>SEMAPHORE_SIGNAL\<close> while it runs, since the signal is blocked during its
  own handler. The Rogue opens both semaphores and never calls \<^verbatim>\<open>sem_wait\<close>,
  \<^verbatim>\<open>sem_trywait\<close> or \<^verbatim>\<open>sem_post\<close> on them.
\<close>

datatype barbarian_pc =
    B_idle \<comment> \<open>outside the lever code\<close>
  | B_wait1 \<comment> \<open>in \<^verbatim>\<open>sem_wait(lever1_sem)\<close>, barbarian.c line 105\<close>
  | B_hold1 \<comment> \<open>in the holding loop, lines 109 to 112\<close>

datatype wizard_pc =
    W_idle \<comment> \<open>outside the lever code\<close>
  | W_try2 \<comment> \<open>in \<^verbatim>\<open>sem_trywait(lever2_sem)\<close>, wizard.c line 154\<close>
  | W_hold2 \<comment> \<open>in the holding loop for lever 2, lines 158 to 161\<close>
  | W_wait1 \<comment> \<open>in \<^verbatim>\<open>sem_wait(lever1_sem)\<close>, line 174\<close>
  | W_hold1 \<comment> \<open>in the holding loop for lever 1, lines 178 to 180\<close>

record levers =
  sem1 :: nat \<comment> \<open>the value of the semaphore of lever one\<close>
  sem2 :: nat \<comment> \<open>the value of the semaphore of lever two\<close>
  bpc :: barbarian_pc
  wpc :: wizard_pc

datatype action =
    B_signal \<comment> \<open>the Barbarian handles \<^verbatim>\<open>SEMAPHORE_SIGNAL\<close> and calls \<^verbatim>\<open>sem_wait\<close>\<close>
  | B_acquire \<comment> \<open>its \<^verbatim>\<open>sem_wait\<close> returns 0\<close>
  | B_fail \<comment> \<open>its \<^verbatim>\<open>sem_wait\<close> returns -1\<close>
  | B_release \<comment> \<open>its holding loop ends and \<^verbatim>\<open>sem_post\<close> returns 0\<close>
  | B_release_fail \<comment> \<open>its holding loop ends and \<^verbatim>\<open>sem_post\<close> returns -1\<close>
  | W_signal \<comment> \<open>the Wizard handles \<^verbatim>\<open>SEMAPHORE_SIGNAL\<close> and calls \<^verbatim>\<open>sem_trywait\<close>\<close>
  | W_try_ok \<comment> \<open>its \<^verbatim>\<open>sem_trywait\<close> returns 0\<close>
  | W_try_fail \<comment> \<open>its \<^verbatim>\<open>sem_trywait\<close> returns -1; it calls \<^verbatim>\<open>sem_wait\<close>\<close>
  | W_acquire \<comment> \<open>its \<^verbatim>\<open>sem_wait\<close> returns 0\<close>
  | W_fail \<comment> \<open>its \<^verbatim>\<open>sem_wait\<close> returns -1\<close>
  | W_release \<comment> \<open>its holding loop ends and \<^verbatim>\<open>sem_post\<close> returns 0\<close>
  | W_release_fail \<comment> \<open>its holding loop ends and \<^verbatim>\<open>sem_post\<close> returns -1\<close>
  | R_step \<comment> \<open>any step of the Rogue\<close>

text \<open>
  One step. A wait returns 0 only when the value of the semaphore is positive, and then
  lowers it by one; a post that returns 0 raises it by one. \<open>None\<close>: the action cannot
  happen in the state.
\<close>

fun lever_step :: "action \<Rightarrow> levers \<Rightarrow> levers option" where
  "lever_step B_signal s = (if bpc s = B_idle then Some (s\<lparr>bpc := B_wait1\<rparr>) else None)"
| "lever_step B_acquire s =
     (if bpc s = B_wait1 \<and> 0 < sem1 s then Some (s\<lparr>sem1 := sem1 s - 1, bpc := B_hold1\<rparr>)
      else None)"
| "lever_step B_fail s = (if bpc s = B_wait1 then Some (s\<lparr>bpc := B_idle\<rparr>) else None)"
| "lever_step B_release s =
     (if bpc s = B_hold1 then Some (s\<lparr>sem1 := sem1 s + 1, bpc := B_idle\<rparr>) else None)"
| "lever_step B_release_fail s = (if bpc s = B_hold1 then Some (s\<lparr>bpc := B_idle\<rparr>) else None)"
| "lever_step W_signal s = (if wpc s = W_idle then Some (s\<lparr>wpc := W_try2\<rparr>) else None)"
| "lever_step W_try_ok s =
     (if wpc s = W_try2 \<and> 0 < sem2 s then Some (s\<lparr>sem2 := sem2 s - 1, wpc := W_hold2\<rparr>)
      else None)"
| "lever_step W_try_fail s = (if wpc s = W_try2 then Some (s\<lparr>wpc := W_wait1\<rparr>) else None)"
| "lever_step W_acquire s =
     (if wpc s = W_wait1 \<and> 0 < sem1 s then Some (s\<lparr>sem1 := sem1 s - 1, wpc := W_hold1\<rparr>)
      else None)"
| "lever_step W_fail s = (if wpc s = W_wait1 then Some (s\<lparr>wpc := W_idle\<rparr>) else None)"
| "lever_step W_release s =
     (if wpc s = W_hold2 then Some (s\<lparr>sem2 := sem2 s + 1, wpc := W_idle\<rparr>)
      else if wpc s = W_hold1 then Some (s\<lparr>sem1 := sem1 s + 1, wpc := W_idle\<rparr>)
      else None)"
| "lever_step W_release_fail s =
     (if wpc s = W_hold2 \<or> wpc s = W_hold1 then Some (s\<lparr>wpc := W_idle\<rparr>) else None)"
| "lever_step R_step s = Some s"

text \<open>A schedule is the list of the actions in the order in which they happen.\<close>

fun run_schedule :: "action list \<Rightarrow> levers \<Rightarrow> levers option" where
  "run_schedule [] s = Some s"
| "run_schedule (a # as) s =
     (case lever_step a s of None \<Rightarrow> None | Some s' \<Rightarrow> run_schedule as s')"

definition initial_levers :: levers where
  "initial_levers = \<lparr>sem1 = 1, sem2 = 1, bpc = B_idle, wpc = W_idle\<rparr>"

datatype process = Barbarian | Wizard | Rogue

text \<open>A process holds a lever from the return of its successful wait to its post.\<close>

definition holders :: "levers \<Rightarrow> lever \<Rightarrow> process set" where
  "holders s l =
     (case l of
        Lever1 \<Rightarrow> (if bpc s = B_hold1 then {Barbarian} else {})
                    \<union> (if wpc s = W_hold1 then {Wizard} else {})
      | Lever2 \<Rightarrow> (if wpc s = W_hold2 then {Wizard} else {}))"

text \<open>The invariant of the lever states: the value of a semaphore and the number of
  processes that hold its lever add up to at most one (to exactly one as long as no
  \<^verbatim>\<open>sem_post\<close> has failed).\<close>

definition lever_inv :: "levers \<Rightarrow> bool" where
  "lever_inv s =
     (sem1 s + (if bpc s = B_hold1 then 1 else 0) + (if wpc s = W_hold1 then 1 else 0) \<le> 1
      \<and> sem2 s + (if wpc s = W_hold2 then 1 else 0) \<le> 1)"

text \<open>The semaphore calls among the effects of a handler.\<close>

fun is_sem_call :: "effect \<Rightarrow> bool" where
  "is_sem_call (Sem_wait l) = True"
| "is_sem_call (Sem_trywait l) = True"
| "is_sem_call (Sem_post l) = True"
| "is_sem_call e = False"

definition sem_calls :: "effect list \<Rightarrow> effect list" where
  "sem_calls ws = filter is_sem_call ws"


section \<open>Properties of \<^verbatim>\<open>decode_caesar_cipher\<close>\<close>


lemma decode_loop_closed:
  "i \<le> n \<Longrightarrow> n \<le> length enc \<Longrightarrow> int di \<le> ml - 1 \<Longrightarrow> nat ml \<le> length buf \<Longrightarrow>
   decode_loop sg enc key n ml i di buf =
     take di buf @ map (decode_char sg key) (take (min (n - i) (nat (ml - 1) - di)) (drop i enc))
       @ 0 # drop (di + min (n - i) (nat (ml - 1) - di) + 1) buf"
proof (induction sg enc key n ml i di buf rule: decode_loop.induct)
  case (1 sg encoded key encoded_len max_len i decoded_index decoded)
  let ?k = "min (encoded_len - i) (nat (max_len - 1) - decoded_index)"
  show ?case
  proof (cases "i < encoded_len \<and> int decoded_index < max_len - 1")
    case True
    let ?x = "decode_char sg key (encoded ! i)"
    let ?k' = "min (encoded_len - (i + 1)) (nat (max_len - 1) - (decoded_index + 1))"
    have k: "?k = Suc ?k'" using True by auto
    have di: "decoded_index < length decoded" using True 1(5) by linarith
    have ilen: "i < length encoded" using True 1(3) by simp
    have step: "decode_loop sg encoded key encoded_len max_len i decoded_index decoded =
        decode_loop sg encoded key encoded_len max_len (i + 1) (decoded_index + 1)
          (decoded[decoded_index := ?x])"
      using True by (subst decode_loop.simps) simp
    have "decode_loop sg encoded key encoded_len max_len (i + 1) (decoded_index + 1)
          (decoded[decoded_index := ?x]) =
        take (decoded_index + 1) (decoded[decoded_index := ?x]) @
        map (decode_char sg key) (take ?k' (drop (i + 1) encoded)) @
        0 # drop (decoded_index + 1 + ?k' + 1) (decoded[decoded_index := ?x])"
      using True 1(3,5) by (intro 1(1)) auto
    also have "take (decoded_index + 1) (decoded[decoded_index := ?x]) = take decoded_index decoded @ [?x]"
      using di by (simp add: take_Suc_conv_app_nth)
    also have "drop (decoded_index + 1 + ?k' + 1) (decoded[decoded_index := ?x]) =
               drop (decoded_index + ?k + 1) decoded"
      unfolding k by simp
    finally show ?thesis
      unfolding step k using ilen by (simp add: Cons_nth_drop_Suc [symmetric])
  next
    case False
    have k0: "?k = 0" using False 1(2,4) by auto
    have di: "decoded_index < length decoded" using 1(4,5) by linarith
    have step: "decode_loop sg encoded key encoded_len max_len i decoded_index decoded =
        decoded[decoded_index := 0]"
      using False by (subst decode_loop.simps) auto
    show ?thesis unfolding k0 step using di
      by (simp add: upd_conv_take_nth_drop)
  qed
qed

lemma c_rem_nonneg: "0 \<le> a \<Longrightarrow> c_rem a b = a mod \<bar>b\<bar>"
  by (cases "a = 0") (simp_all add: c_rem_def)

lemma c_rem_26_cong: "(c_rem k 26) mod 26 = k mod 26"
proof (cases "0 \<le> k")
  case True
  then show ?thesis by (simp add: c_rem_nonneg)
next
  case False
  then have "c_rem k 26 = - ((- k) mod 26)" by (simp add: c_rem_def sgn_if)
  then show ?thesis by (simp add: mod_minus_eq)
qed

lemma c_rem_26_range: "- 25 \<le> c_rem k 26 \<and> c_rem k 26 \<le> 25"
proof (cases "0 \<le> k")
  case True
  then have "c_rem k 26 = k mod 26" by (simp add: c_rem_nonneg)
  moreover have "0 \<le> k mod 26" "k mod 26 < 26" by simp_all
  ultimately show ?thesis by linarith
next
  case False
  then have "c_rem k 26 = - ((- k) mod 26)" by (simp add: c_rem_def sgn_if)
  moreover have "0 \<le> (- k) mod 26" "(- k) mod 26 < 26" by simp_all
  ultimately show ?thesis by linarith
qed

lemma shift_back_eq:
  assumes "0 \<le> x" "x \<le> 25"
  shows "c_rem (x - c_rem key 26 + 26) 26 = (x - key) mod 26"
proof -
  have "0 \<le> x - c_rem key 26 + 26" using assms c_rem_26_range [of key] by linarith
  then have "c_rem (x - c_rem key 26 + 26) 26 = (x - c_rem key 26 + 26) mod 26"
    by (simp add: c_rem_nonneg)
  also have "\<dots> = (x - c_rem key 26) mod 26" by simp
  also have "\<dots> = (x - (c_rem key 26) mod 26) mod 26" by (simp add: mod_diff_right_eq)
  also have "\<dots> = (x - key mod 26) mod 26" by (simp only: c_rem_26_cong)
  also have "\<dots> = (x - key) mod 26" by (simp add: mod_diff_right_eq)
  finally show ?thesis .
qed

lemma uint_byte_of_int: "0 \<le> x \<Longrightarrow> x < 256 \<Longrightarrow> uint (word_of_int x :: byte) = x"
  by (simp add: uint_word_of_int take_bit_int_eq_self)

lemma decode_char_upper:
  assumes "isupper (char_val sg c)"
  shows "uint (decode_char sg key c) = 65 + (char_val sg c - 65 - key) mod 26"
proof -
  let ?v = "char_val sg c"
  have v: "65 \<le> ?v" "?v \<le> 90" using assms by (simp_all add: isupper_def)
  then have nl: "\<not> islower ?v" by (simp add: islower_def)
  have al: "isalpha ?v" using assms by (simp add: isalpha_def)
  have r: "c_rem (?v - 65 - c_rem key 26 + 26) 26 = (?v - 65 - key) mod 26"
    using shift_back_eq [of "?v - 65" key] v by simp
  have b: "0 \<le> (?v - 65 - key) mod 26" "(?v - 65 - key) mod 26 < 26" by simp_all
  have "decode_char sg key c = word_of_int (65 + (?v - 65 - key) mod 26)"
    using al nl r by (simp add: decode_char_def)
  moreover have "uint (word_of_int (65 + (?v - 65 - key) mod 26) :: byte) = 65 + (?v - 65 - key) mod 26"
    using b by (intro uint_byte_of_int) linarith+
  ultimately show ?thesis by simp
qed


lemma decode_char_lower:
  assumes "islower (char_val sg c)"
  shows "uint (decode_char sg key c) = 97 + (char_val sg c - 97 - key) mod 26"
proof -
  let ?v = "char_val sg c"
  have v: "97 \<le> ?v" "?v \<le> 122" using assms by (simp_all add: islower_def)
  have al: "isalpha ?v" using assms by (simp add: isalpha_def)
  have r: "c_rem (?v - 97 - c_rem key 26 + 26) 26 = (?v - 97 - key) mod 26"
    using shift_back_eq [of "?v - 97" key] v by simp
  have b: "0 \<le> (?v - 97 - key) mod 26" "(?v - 97 - key) mod 26 < 26" by simp_all
  have "decode_char sg key c = word_of_int (97 + (?v - 97 - key) mod 26)"
    using al assms r by (simp add: decode_char_def)
  moreover have "uint (word_of_int (97 + (?v - 97 - key) mod 26) :: byte) = 97 + (?v - 97 - key) mod 26"
    using b by (intro uint_byte_of_int) linarith+
  ultimately show ?thesis by simp
qed

lemma decode_char_other: "\<not> isalpha (char_val sg c) \<Longrightarrow> decode_char sg key c = c"
  by (simp add: decode_char_def)

lemma decode_char_nonzero:
  assumes "c \<noteq> 0"
  shows "decode_char sg key c \<noteq> 0"
proof (cases "isalpha (char_val sg c)")
  case False
  then show ?thesis using assms by (simp add: decode_char_other)
next
  case True
  then consider "isupper (char_val sg c)" | "islower (char_val sg c)"
    by (auto simp: isalpha_def)
  then have "65 \<le> uint (decode_char sg key c)"
  proof cases
    case 1
    have "0 \<le> (char_val sg c - 65 - key) mod 26" by simp
    then show ?thesis using decode_char_upper [OF 1, of key] by linarith
  next
    case 2
    have "0 \<le> (char_val sg c - 97 - key) mod 26" by simp
    then show ?thesis using decode_char_lower [OF 2, of key] by linarith
  qed
  then show ?thesis by auto
qed

lemma c_string_eq_take: "c_string buf = take (strlen buf) buf"
  unfolding c_string_def strlen_def by (rule takeWhile_eq_take)

lemma strlen_le_length: "strlen buf \<le> length buf"
  by (simp add: strlen_def c_string_def length_takeWhile_le)

lemma c_string_nonzero: "b \<in> set (c_string buf) \<Longrightarrow> b \<noteq> 0"
  by (auto simp: c_string_def dest: set_takeWhileD)

lemma c_string_append_zero:
  assumes "0 \<notin> set xs"
  shows "c_string (xs @ 0 # ys) = xs"
proof -
  have "x \<noteq> 0" if "x \<in> set xs" for x using that assms by auto
  then have "takeWhile (\<lambda>b. b \<noteq> 0) (xs @ 0 # ys) = xs @ takeWhile (\<lambda>b. b \<noteq> 0) (0 # ys)"
    by (rule takeWhile_append2)
  then show ?thesis by (simp add: c_string_def)
qed

lemma c_string_no_zero: "0 \<notin> set xs \<Longrightarrow> c_string xs = xs"
  by (auto simp: c_string_def)

text \<open>The destination buffer after a call with a positive \<open>max_len\<close>.\<close>

lemma decode_caesar_cipher_buffer:
  assumes "0 < max_len"
  shows "decode_caesar_cipher sg encoded decoded max_len =
     map (decode_char sg (char_val sg (encoded ! 0)))
         (take (nat (max_len - 1)) (tl (c_string encoded)))
     @ 0 # drop (min (strlen encoded - 1) (nat (max_len - 1)) + 1)
             (replicate (nat max_len) 0 @ drop (nat max_len) decoded)"
proof (cases "0 < strlen encoded")
  case True
  let ?d0 = "replicate (nat max_len) 0 @ drop (nat max_len) decoded"
  have len: "nat max_len \<le> length ?d0" by simp
  have tk: "take (min (strlen encoded - 1) (nat (max_len - 1))) (drop 1 encoded) =
            take (nat (max_len - 1)) (tl (c_string encoded))"
    by (simp add: c_string_eq_take tl_take take_take drop_Suc min.commute)
  have "decode_caesar_cipher sg encoded decoded max_len =
        decode_loop sg encoded (char_val sg (encoded ! 0)) (strlen encoded) max_len 1 0 ?d0"
    using assms True by (simp add: decode_caesar_cipher_def Let_def)
  also have "\<dots> = take 0 ?d0 @
       map (decode_char sg (char_val sg (encoded ! 0)))
         (take (min (strlen encoded - 1) (nat (max_len - 1) - 0)) (drop 1 encoded))
       @ 0 # drop (0 + min (strlen encoded - 1) (nat (max_len - 1) - 0) + 1) ?d0"
    using assms True strlen_le_length [of encoded] len
    by (intro decode_loop_closed) simp_all
  finally show ?thesis using tk by simp
next
  case False
  then have e: "c_string encoded = []" by (simp add: strlen_def)
  have "nat max_len = Suc (nat max_len - 1)" using assms by simp
  then have r: "replicate (nat max_len) (0::byte) = 0 # replicate (nat max_len - 1) 0"
    by (metis replicate_Suc)
  show ?thesis using assms False e
    by (simp add: decode_caesar_cipher_def Let_def r)
qed

text \<open>The C string that the destination buffer holds after the call.\<close>

lemma decode_caesar_cipher_string:
  assumes "0 < max_len"
  shows "c_string (decode_caesar_cipher sg encoded decoded max_len) =
     map (decode_char sg (char_val sg (encoded ! 0)))
         (take (nat (max_len - 1)) (tl (c_string encoded)))"
proof -
  let ?m = "map (decode_char sg (char_val sg (encoded ! 0)))
         (take (nat (max_len - 1)) (tl (c_string encoded)))"
  have "b \<noteq> 0" if "b \<in> set (take (nat (max_len - 1)) (tl (c_string encoded)))" for b
  proof -
    have "b \<in> set (tl (c_string encoded))" using that by (rule in_set_takeD)
    then have "b \<in> set (c_string encoded)" by (cases "c_string encoded") auto
    then show ?thesis by (rule c_string_nonzero)
  qed
  then have "0 \<notin> set ?m" using decode_char_nonzero by fastforce
  then show ?thesis
    unfolding decode_caesar_cipher_buffer [OF assms] by (rule c_string_append_zero)
qed

lemma sint_byte: "sint (c::byte) = signed_take_bit 7 (uint c)"
  using sint_uint [of c] by simp

lemma sint_byte_small:
  assumes "uint (c::byte) < 128"
  shows "sint c = uint c"
proof -
  have p: "(2::int) ^ 7 = 128" by simp
  have "0 \<le> uint c" by simp
  then have "- (2 ^ 7) \<le> uint c" unfolding p by linarith
  moreover have "uint c < 2 ^ 7" using assms by simp
  ultimately have "signed_take_bit 7 (uint c) = uint c" by (rule signed_take_bit_int_eq_self)
  then show ?thesis by (simp only: sint_byte)
qed

lemma sint_byte_big: "\<not> uint (c::byte) < 128 \<Longrightarrow> sint c < 0"
proof -
  assume "\<not> uint c < 128"
  then have "2 ^ 7 \<le> uint c" by simp
  then have "signed_take_bit 7 (uint c) \<le> uint c - 2 ^ Suc 7"
    by (rule signed_take_bit_int_less_eq)
  moreover have "uint c < 256" using uint_bounded [of c] by simp
  moreover have "(2::int) ^ Suc 7 = 256" by simp
  ultimately have "signed_take_bit 7 (uint c) < 0" by linarith
  then show ?thesis by (simp only: sint_byte)
qed

lemma char_val_small: "uint c < 128 \<Longrightarrow> char_val sg c = uint c"
  by (simp add: char_val_def sint_byte_small)

lemma isalpha_char_val: "isalpha (char_val sg c) = isalpha (uint c)"
proof (cases "uint c < 128")
  case True
  then show ?thesis by (simp add: char_val_small)
next
  case False
  then have "\<not> isalpha (uint c)" by (simp add: isalpha_def isupper_def islower_def)
  moreover have "\<not> isalpha (char_val sg c)"
    using False sint_byte_big [OF False]
    by (simp add: char_val_def isalpha_def isupper_def islower_def)
  ultimately show ?thesis by simp
qed

lemma spec_encode_char_upper:
  assumes "isupper (uint c)"
  shows "uint (spec_encode_char k c) = 65 + (uint c - 65 + k) mod 26"
proof -
  have b: "0 \<le> (uint c - 65 + k) mod 26" "(uint c - 65 + k) mod 26 < 26" by simp_all
  have "uint (word_of_int (65 + (uint c - 65 + k) mod 26) :: byte) = 65 + (uint c - 65 + k) mod 26"
    using b by (intro uint_byte_of_int) linarith+
  then show ?thesis using assms by (simp add: spec_encode_char_def)
qed

lemma spec_encode_char_lower:
  assumes "islower (uint c)"
  shows "uint (spec_encode_char k c) = 97 + (uint c - 97 + k) mod 26"
proof -
  have nu: "\<not> isupper (uint c)" using assms by (simp add: islower_def isupper_def)
  have b: "0 \<le> (uint c - 97 + k) mod 26" "(uint c - 97 + k) mod 26 < 26" by simp_all
  have "uint (word_of_int (97 + (uint c - 97 + k) mod 26) :: byte) = 97 + (uint c - 97 + k) mod 26"
    using b by (intro uint_byte_of_int) linarith+
  then show ?thesis using assms nu by (simp add: spec_encode_char_def)
qed

lemma spec_encode_char_other: "\<not> isalpha (uint c) \<Longrightarrow> spec_encode_char k c = c"
  by (simp add: spec_encode_char_def isalpha_def)

lemma spec_encode_char_nonzero:
  assumes "c \<noteq> 0"
  shows "spec_encode_char k c \<noteq> 0"
proof -
  consider "isupper (uint c)" | "islower (uint c)" | "\<not> isalpha (uint c)"
    by (auto simp: isalpha_def)
  then show ?thesis
  proof cases
    case 1
    have "0 \<le> (uint c - 65 + k) mod 26" by simp
    then have "65 \<le> uint (spec_encode_char k c)" using spec_encode_char_upper [OF 1, of k] by linarith
    then show ?thesis by auto
  next
    case 2
    have "0 \<le> (uint c - 97 + k) mod 26" by simp
    then have "97 \<le> uint (spec_encode_char k c)" using spec_encode_char_lower [OF 2, of k] by linarith
    then show ?thesis by auto
  next
    case 3
    then show ?thesis using assms by (simp add: spec_encode_char_other)
  qed
qed

lemma shift_there_and_back:
  assumes "0 \<le> x" "x < 26"
  shows "((x + key mod 26) mod 26 - key) mod (26::int) = x"
proof -
  have "((x + key mod 26) mod 26 - key) mod 26 = ((x + key mod 26) - key) mod 26"
    by (simp add: mod_diff_left_eq)
  also have "\<dots> = (x + key mod 26 - key mod 26) mod 26"
    by (metis mod_diff_right_eq)
  also have "\<dots> = x" using assms by simp
  finally show ?thesis .
qed

lemma decode_spec_encode_char:
  "decode_char sg key (spec_encode_char (key mod 26) c) = c"
proof -
  consider "isupper (uint c)" | "islower (uint c)" | "\<not> isalpha (uint c)"
    by (auto simp: isalpha_def)
  then show ?thesis
  proof cases
    case 1
    let ?e = "spec_encode_char (key mod 26) c"
    have e: "uint ?e = 65 + (uint c - 65 + key mod 26) mod 26"
      by (rule spec_encode_char_upper [OF 1])
    have b: "0 \<le> (uint c - 65 + key mod 26) mod 26" "(uint c - 65 + key mod 26) mod 26 < 26"
      by simp_all
    have small: "uint ?e < 128" using e b by linarith
    have up: "isupper (char_val sg ?e)"
      using e b by (simp add: char_val_small [OF small] isupper_def)
    have x: "0 \<le> uint c - 65" "uint c - 65 < 26" using 1 by (simp_all add: isupper_def)
    have "uint (decode_char sg key ?e) = 65 + (char_val sg ?e - 65 - key) mod 26"
      by (rule decode_char_upper [OF up])
    also have "\<dots> = 65 + ((uint c - 65 + key mod 26) mod 26 - key) mod 26"
      by (simp add: char_val_small [OF small] e)
    also have "\<dots> = 65 + (uint c - 65)"
      by (simp only: shift_there_and_back [OF x])
    finally have "uint (decode_char sg key ?e) = uint c" by simp
    then show ?thesis by (rule word_uint_eqI)
  next
    case 2
    let ?e = "spec_encode_char (key mod 26) c"
    have e: "uint ?e = 97 + (uint c - 97 + key mod 26) mod 26"
      by (rule spec_encode_char_lower [OF 2])
    have b: "0 \<le> (uint c - 97 + key mod 26) mod 26" "(uint c - 97 + key mod 26) mod 26 < 26"
      by simp_all
    have small: "uint ?e < 128" using e b by linarith
    have lo: "islower (char_val sg ?e)"
      using e b by (simp add: char_val_small [OF small] islower_def)
    have x: "0 \<le> uint c - 97" "uint c - 97 < 26" using 2 by (simp_all add: islower_def)
    have "uint (decode_char sg key ?e) = 97 + (char_val sg ?e - 97 - key) mod 26"
      by (rule decode_char_lower [OF lo])
    also have "\<dots> = 97 + ((uint c - 97 + key mod 26) mod 26 - key) mod 26"
      by (simp add: char_val_small [OF small] e)
    also have "\<dots> = 97 + (uint c - 97)"
      by (simp only: shift_there_and_back [OF x])
    finally have "uint (decode_char sg key ?e) = uint c" by simp
    then show ?thesis by (rule word_uint_eqI)
  next
    case 3
    then show ?thesis
      by (simp add: spec_encode_char_other decode_char_other isalpha_char_val)
  qed
qed


lemma back_shift_mod: "(x - c_rem key 26 + 26) mod 26 = (x - key) mod 26"
proof -
  have "(x - c_rem key 26 + 26) mod 26 = (x - c_rem key 26) mod 26" by simp
  also have "\<dots> = (x - (c_rem key 26) mod 26) mod 26" by (simp add: mod_diff_right_eq)
  also have "\<dots> = (x - key mod 26) mod 26" by (simp only: c_rem_26_cong)
  also have "\<dots> = (x - key) mod 26" by (simp add: mod_diff_right_eq)
  finally show ?thesis .
qed

lemma decode_string_no_zero:
  assumes "0 < max_len" and "0 \<notin> set encoded"
  shows "c_string (decode_caesar_cipher sg encoded decoded max_len) =
     map (decode_char sg (char_val sg (encoded ! 0))) (take (nat (max_len - 1)) (tl encoded))"
  using decode_caesar_cipher_string [OF assms(1)] assms(2) by (simp add: c_string_no_zero)

subsection \<open>Claims about \<^verbatim>\<open>decode_caesar_cipher\<close>\<close>

text \<open>
  C2 (as amended). Let the input be a byte sequence without a NUL byte, its first byte the
  key, and let \<open>max_len\<close> be positive. The decoded string has
  \<open>min (n - 1) (max_len - 1)\<close> bytes, which is the input length minus one whenever the
  input fits the destination (\<open>n \<le> max_len\<close>). Byte \<open>i\<close> of it comes from input byte
  \<open>i + 1\<close>: a letter is moved back by \<^verbatim>\<open>key % 26\<close> inside the alphabet of its own case,
  the difference being raised by 26 before it is reduced modulo 26; any other byte is
  copied. For a key that is not negative \<^verbatim>\<open>key % 26\<close> is \<open>key mod 26\<close>. The empty input
  gives the empty string.
\<close>

theorem decode_caesar_cipher_shifts_back:
  assumes "0 < max_len" and "0 \<notin> set encoded"
  shows "length (c_string (decode_caesar_cipher sg encoded decoded max_len)) =
           min (length encoded - 1) (nat (max_len - 1))
     \<and> (int (length encoded) \<le> max_len \<longrightarrow>
           length (c_string (decode_caesar_cipher sg encoded decoded max_len)) = length encoded - 1)
     \<and> (\<forall>i < min (length encoded - 1) (nat (max_len - 1)).
           (isupper (char_val sg (encoded ! Suc i)) \<longrightarrow>
              uint (c_string (decode_caesar_cipher sg encoded decoded max_len) ! i) =
                65 + (char_val sg (encoded ! Suc i) - 65
                        - c_rem (char_val sg (encoded ! 0)) 26 + 26) mod 26)
         \<and> (islower (char_val sg (encoded ! Suc i)) \<longrightarrow>
              uint (c_string (decode_caesar_cipher sg encoded decoded max_len) ! i) =
                97 + (char_val sg (encoded ! Suc i) - 97
                        - c_rem (char_val sg (encoded ! 0)) 26 + 26) mod 26)
         \<and> (\<not> isalpha (char_val sg (encoded ! Suc i)) \<longrightarrow>
              c_string (decode_caesar_cipher sg encoded decoded max_len) ! i = encoded ! Suc i))
     \<and> (0 \<le> char_val sg (encoded ! 0) \<longrightarrow>
           c_rem (char_val sg (encoded ! 0)) 26 = char_val sg (encoded ! 0) mod 26)
     \<and> c_string (decode_caesar_cipher sg [] decoded max_len) = []"
proof -
  let ?key = "char_val sg (encoded ! 0)"
  let ?out = "c_string (decode_caesar_cipher sg encoded decoded max_len)"
  let ?n = "min (length encoded - 1) (nat (max_len - 1))"
  have out: "?out = map (decode_char sg ?key) (take (nat (max_len - 1)) (tl encoded))"
    by (rule decode_string_no_zero [OF assms])
  have len: "length ?out = ?n" by (simp add: out min.commute)
  have fits: "length ?out = length encoded - 1" if "int (length encoded) \<le> max_len"
    using that len by simp
  have nth: "?out ! i = decode_char sg ?key (encoded ! Suc i)" if "i < ?n" for i
    using that by (simp add: out nth_tl)
  have up: "uint (?out ! i) = 65 + (char_val sg (encoded ! Suc i) - 65 - c_rem ?key 26 + 26) mod 26"
    if "i < ?n" "isupper (char_val sg (encoded ! Suc i))" for i
    using decode_char_upper [OF that(2), of ?key] nth [OF that(1)]
    by (simp only: back_shift_mod)
  have lo: "uint (?out ! i) = 97 + (char_val sg (encoded ! Suc i) - 97 - c_rem ?key 26 + 26) mod 26"
    if "i < ?n" "islower (char_val sg (encoded ! Suc i))" for i
    using decode_char_lower [OF that(2), of ?key] nth [OF that(1)]
    by (simp only: back_shift_mod)
  have other: "?out ! i = encoded ! Suc i"
    if "i < ?n" "\<not> isalpha (char_val sg (encoded ! Suc i))" for i
    using decode_char_other [OF that(2)] nth [OF that(1)] by simp
  have key: "c_rem ?key 26 = ?key mod 26" if "0 \<le> ?key"
    using that by (simp add: c_rem_nonneg)
  have empty: "c_string (decode_caesar_cipher sg [] decoded max_len) = []"
    using decode_caesar_cipher_string [OF assms(1), of sg "[]" decoded] by (simp add: c_string_def)
  show ?thesis using len fits up lo other key empty by blast
qed

theorem decode_caesar_cipher_shifts_back_witness:
  "length (c_string (decode_caesar_cipher True [3, 72, 105, 33] (replicate 8 1) 8)) = 3
   \<and> uint (c_string (decode_caesar_cipher True [3, 72, 105, 33] (replicate 8 1) 8) ! 0) = 69
   \<and> uint (c_string (decode_caesar_cipher True [3, 72, 105, 33] (replicate 8 1) 8) ! 1) = 102
   \<and> c_string (decode_caesar_cipher True [3, 72, 105, 33] (replicate 8 1) 8) ! 2 = 33"
proof -
  have h: "(0::int) < 8" "(0::byte) \<notin> set [3, 72, 105, 33]" by simp_all
  have v: "char_val True (3::byte) = 3" "char_val True (72::byte) = 72"
    "char_val True (105::byte) = 105" "char_val True (33::byte) = 33"
    by (simp_all add: char_val_def)
  note t = decode_caesar_cipher_shifts_back [OF h, of True "replicate 8 1"]
  have l: "length (c_string (decode_caesar_cipher True [3, 72, 105, 33] (replicate 8 1) 8)) = 3"
    using t by simp
  have "(0::nat) < min (length [3::byte, 72, 105, 33] - 1) (nat (8 - 1))" by simp
  with t have "isupper 72 \<longrightarrow>
    uint (c_string (decode_caesar_cipher True [3, 72, 105, 33] (replicate 8 1) 8) ! 0)
      = 65 + (72 - 65 - c_rem 3 26 + 26) mod 26"
    by (auto simp: v)
  then have a: "uint (c_string (decode_caesar_cipher True [3, 72, 105, 33] (replicate 8 1) 8) ! 0) = 69"
    by (simp add: isupper_def c_rem_def)
  have "(1::nat) < min (length [3::byte, 72, 105, 33] - 1) (nat (8 - 1))" by simp
  with t have "islower 105 \<longrightarrow>
    uint (c_string (decode_caesar_cipher True [3, 72, 105, 33] (replicate 8 1) 8) ! 1)
      = 97 + (105 - 97 - c_rem 3 26 + 26) mod 26"
    by (auto simp: v)
  then have b: "uint (c_string (decode_caesar_cipher True [3, 72, 105, 33] (replicate 8 1) 8) ! 1) = 102"
    by (simp add: islower_def c_rem_def)
  have "(2::nat) < min (length [3::byte, 72, 105, 33] - 1) (nat (8 - 1))" by simp
  with t have "\<not> isalpha 33 \<longrightarrow>
    c_string (decode_caesar_cipher True [3, 72, 105, 33] (replicate 8 1) 8) ! 2 = 33"
    by (auto simp: v)
  then have c: "c_string (decode_caesar_cipher True [3, 72, 105, 33] (replicate 8 1) 8) ! 2 = 33"
    by (simp add: isalpha_def isupper_def islower_def)
  show ?thesis using l a b c by simp
qed

text \<open>
  C2 as stated fails. A key byte 0 is the terminator of the C string, so the function sees an
  empty string and returns the empty string, whatever follows the key; and an input longer
  than the destination is cut to \<open>max_len - 1\<close> bytes.
\<close>

theorem decode_caesar_cipher_length_counterexample:
  "length (c_string (decode_caesar_cipher True [0, 72, 105] (replicate 8 0) 8))
     \<noteq> length [0 :: byte, 72, 105] - 1
   \<and> length (c_string (decode_caesar_cipher False [0, 72, 105] (replicate 8 0) 8))
     \<noteq> length [0 :: byte, 72, 105] - 1
   \<and> length (c_string (decode_caesar_cipher True [3, 68, 104, 111, 111] (replicate 3 0) 3))
     \<noteq> length [3 :: byte, 68, 104, 111, 111] - 1
   \<and> length (c_string (decode_caesar_cipher False [3, 68, 104, 111, 111] (replicate 3 0) 3))
     \<noteq> length [3 :: byte, 68, 104, 111, 111] - 1"
  by code_simp

text \<open>
  C9 (as amended). The key byte 3 followed by \<open>Dhoo\<close> decodes to \<open>Aell\<close>, in every
  destination buffer with room for the four letters and the terminator: \<open>h\<close> moved back by
  three is \<open>e\<close>.
\<close>

theorem decode_caesar_cipher_Dhoo:
  assumes "5 \<le> max_len"
  shows "c_string (decode_caesar_cipher sg (3 # map of_char ''Dhoo'') decoded max_len)
           = map of_char ''Aell''"
proof -
  have v: "char_val sg (3::byte) = 3" "char_val sg (68::byte) = 68"
    "char_val sg (104::byte) = 104" "char_val sg (111::byte) = 111"
    by (simp_all add: char_val_small)
  have m: "0 < max_len" using assms by simp
  have z: "(0::byte) \<notin> set (3 # map of_char ''Dhoo'')" by simp
  have t: "take (nat (max_len - 1)) [68, 104, 111, 111 :: byte] = [68, 104, 111, 111]"
    using assms by simp
  have "c_string (decode_caesar_cipher sg (3 # map of_char ''Dhoo'') decoded max_len) =
      map (decode_char sg (char_val sg 3)) (take (nat (max_len - 1)) [68, 104, 111, 111])"
    using decode_string_no_zero [OF m z, of sg decoded] by simp
  also have "\<dots> = map (decode_char sg 3) [68, 104, 111, 111]"
    by (simp only: t v)
  also have "\<dots> = map of_char ''Aell''"
    by (simp add: decode_char_def v isalpha_def isupper_def islower_def c_rem_def)
  finally show ?thesis .
qed

theorem decode_caesar_cipher_Dhoo_witness:
  "c_string (decode_caesar_cipher True (3 # map of_char ''Dhoo'') (replicate 16 0) 16)
     = map of_char ''Aell''"
  using decode_caesar_cipher_Dhoo [of 16 True "replicate 16 0"] by simp

text \<open>C9 as stated fails: the decoded string is not \<open>Agll\<close>.\<close>

theorem decode_caesar_cipher_Dhoo_counterexample:
  "c_string (decode_caesar_cipher True (3 # map of_char ''Dhoo'') (replicate 16 0) 16)
     \<noteq> map of_char ''Agll''
   \<and> c_string (decode_caesar_cipher False (3 # map of_char ''Dhoo'') (replicate 16 0) 16)
     \<noteq> map of_char ''Agll''"
  by code_simp

text \<open>
  C1 (as amended). Let the key byte \<open>K\<close> be other than NUL and not negative as a
  \<^verbatim>\<open>char\<close> (below 128 where \<^verbatim>\<open>char\<close> is signed), let the message \<open>M\<close> hold no NUL
  byte, and let the destination have room for it (\<open>length M < max_len\<close>). Then decoding
  \<open>spec_encode K M\<close> gives \<open>M\<close> back, and encoding the decoded string with \<open>K\<close> again
  gives the encoded sequence again. A byte that is not a letter is left as it is by the
  encoder and by the decoder, and the empty input decodes to the empty string.
\<close>

theorem decode_inverts_spec_encode:
  assumes "K \<noteq> 0" and "sg \<longrightarrow> uint K < 128" and "0 \<notin> set M" and "int (length M) < max_len"
  shows "c_string (decode_caesar_cipher sg (spec_encode K M) decoded max_len) = M
     \<and> spec_encode K (c_string (decode_caesar_cipher sg (spec_encode K M) decoded max_len))
         = spec_encode K M
     \<and> (\<forall>c k. \<not> isalpha (char_val sg c) \<longrightarrow>
           spec_encode_char k c = c \<and> decode_char sg k c = c)
     \<and> c_string (decode_caesar_cipher sg [] decoded max_len) = []"
proof -
  have m: "0 < max_len" using assms(4) by linarith
  have kv: "char_val sg K = uint K" using assms(2) by (auto simp: char_val_def sint_byte_small)
  have "spec_encode_char (uint K mod 26) c \<noteq> 0" if "c \<in> set M" for c
    using that assms(3) by (intro spec_encode_char_nonzero) auto
  then have z: "0 \<notin> set (spec_encode K M)" using assms(1) by (auto simp: spec_encode_def)
  have t: "take (nat (max_len - 1)) (map (spec_encode_char (uint K mod 26)) M) =
           map (spec_encode_char (uint K mod 26)) M"
    using assms(4) by simp
  have "c_string (decode_caesar_cipher sg (spec_encode K M) decoded max_len) =
      map (decode_char sg (char_val sg (spec_encode K M ! 0)))
          (take (nat (max_len - 1)) (tl (spec_encode K M)))"
    by (rule decode_string_no_zero [OF m z])
  also have "\<dots> = map (decode_char sg (uint K)) (map (spec_encode_char (uint K mod 26)) M)"
    using t by (simp add: spec_encode_def kv)
  also have "\<dots> = M"
    by (simp add: decode_spec_encode_char map_idI)
  finally have round: "c_string (decode_caesar_cipher sg (spec_encode K M) decoded max_len) = M" .
  have pass: "spec_encode_char k c = c \<and> decode_char sg k c = c"
    if "\<not> isalpha (char_val sg c)" for c k
    using that by (simp add: decode_char_other spec_encode_char_other isalpha_char_val)
  have empty: "c_string (decode_caesar_cipher sg [] decoded max_len) = []"
    using decode_caesar_cipher_string [OF m, of sg "[]" decoded] by (simp add: c_string_def)
  show ?thesis using round pass empty by simp
qed

theorem decode_inverts_spec_encode_witness:
  "c_string (decode_caesar_cipher True (spec_encode 3 (map of_char ''Hi, Zed!'')) (replicate 16 0) 16)
     = map of_char ''Hi, Zed!''
   \<and> spec_encode 3 (map of_char ''Hi, Zed!'') = 3 # map of_char ''Kl, Chg!''
   \<and> spec_encode_char 3 44 = 44 \<and> decode_char True 3 44 = 44"
proof -
  have h: "(3::byte) \<noteq> 0" "True \<longrightarrow> uint (3::byte) < 128"
    "(0::byte) \<notin> set (map of_char ''Hi, Zed!'')" "int (length (map of_char ''Hi, Zed!'' :: byte list)) < 16"
    by simp_all
  have a: "\<not> isalpha (char_val True (44::byte))"
    by (simp add: char_val_def isalpha_def isupper_def islower_def)
  have e: "spec_encode 3 (map of_char ''Hi, Zed!'') = 3 # map of_char ''Kl, Chg!''"
    by code_simp
  show ?thesis
    using decode_inverts_spec_encode [OF h, of "replicate 16 0"] a e by blast
qed

text \<open>
  C1 as stated fails for the key 0: the encoded sequence then begins with the NUL byte, which
  ends the C string, and the decoder returns the empty string.
\<close>

theorem decode_inverts_spec_encode_counterexample:
  "c_string (decode_caesar_cipher True (spec_encode 0 [72, 105]) (replicate 8 0) 8) \<noteq> [72, 105]
   \<and> c_string (decode_caesar_cipher False (spec_encode 0 [72, 105]) (replicate 8 0) 8) \<noteq> [72, 105]"
  by code_simp

text \<open>The other bounds of the amended C1: a message with a NUL byte, a message longer than
  the destination, and a key byte above 127 where \<^verbatim>\<open>char\<close> is signed.\<close>

lemma decode_stops_at_NUL:
  "c_string (decode_caesar_cipher True (spec_encode 3 [72, 0, 105]) (replicate 8 0) 8) = [72]"
  by code_simp

lemma decode_truncates:
  "c_string (decode_caesar_cipher True (spec_encode 3 [72, 105, 33]) (replicate 3 0) 3) = [72, 105]"
  by code_simp

lemma decode_signed_key:
  "c_string (decode_caesar_cipher True (spec_encode 200 [72, 105]) (replicate 8 0) 8) = [68, 101]"
  by code_simp

section \<open>Properties of the Rogue's handler\<close>

subsection \<open>The search loop\<close>

lemma trap_body_timed_out: "o_timed_out ob \<Longrightarrow> trap_body ob b = (Break, b, [])"
  by (simp add: trap_body_def)





lemma trap_loop_deadline:
  "o_timed_out ob \<Longrightarrow> trap_loop (ob # obs) b ws = Some (b, ws)"
  by (simp add: trap_body_timed_out)





subsection \<open>The reset of the bounds\<close>

lemma reset_bounds_fresh:
  "d \<noteq> of_char CHR ''u'' \<Longrightarrow> d \<noteq> of_char CHR ''d'' \<Longrightarrow> d \<noteq> of_char CHR ''-''
   \<Longrightarrow> reset_bounds M d b = (0, M)"
  by (simp add: reset_bounds_def)

lemma reset_bounds_ongoing:
  "d = of_char CHR ''u'' \<or> d = of_char CHR ''d'' \<or> d = of_char CHR ''-''
   \<Longrightarrow> reset_bounds M d b = b"
  by (auto simp: reset_bounds_def)

lemma reset_bounds_full: "reset_bounds M d (0, M) = (0, M)"
  by (simp add: reset_bounds_def)

text \<open>
  C4 (as amended). Take a \<^verbatim>\<open>DUNGEON_SIGNAL\<close> that the Rogue handles (its shutdown flag is
  unset and \<open>running\<close> is true) while the trap is locked. If the direction read on entry is
  none of \<open>u\<close>, \<open>d\<close>, \<open>-\<close>, the search loop runs from the full range \<open>(0, MAX_PICK_ANGLE)\<close>;
  if it is one of them, the loop runs from the bounds kept from the call before. When the
  loop has been left and the trap is read unlocked, the bounds kept for the next call are
  the full range; so the search of the call that follows starts from the full range
  whatever direction it reads.
\<close>

theorem rogue_trap_bounds_reset:
  assumes "\<not> rs_exit_flag st" and "r_running env" and "r_locked env"
  shows "(r_direction env \<noteq> of_char CHR ''u'' \<and> r_direction env \<noteq> of_char CHR ''d''
            \<and> r_direction env \<noteq> of_char CHR ''-'' \<longrightarrow>
          rogue_signal_handler M DUNGEON_SIGNAL env st =
            (case trap_loop (r_trap env) (0, M) [] of
               None \<Rightarrow> None
             | Some (b, ws) \<Rightarrow>
                 Some (st\<lparr>rs_current_low := (if r_locked_after env then fst b else 0),
                          rs_current_high := (if r_locked_after env then snd b else M)\<rparr>, ws)))
     \<and> (r_direction env = of_char CHR ''u'' \<or> r_direction env = of_char CHR ''d''
            \<or> r_direction env = of_char CHR ''-'' \<longrightarrow>
          rogue_signal_handler M DUNGEON_SIGNAL env st =
            (case trap_loop (r_trap env) (rs_current_low st, rs_current_high st) [] of
               None \<Rightarrow> None
             | Some (b, ws) \<Rightarrow>
                 Some (st\<lparr>rs_current_low := (if r_locked_after env then fst b else 0),
                          rs_current_high := (if r_locked_after env then snd b else M)\<rparr>, ws)))
     \<and> (\<forall>st' ws. rogue_signal_handler M DUNGEON_SIGNAL env st = Some (st', ws)
            \<and> \<not> r_locked_after env \<longrightarrow>
          rs_current_low st' = 0 \<and> rs_current_high st' = M
          \<and> (\<forall>d. reset_bounds M d (rs_current_low st', rs_current_high st') = (0, M)))"
proof -
  have h: "rogue_signal_handler M DUNGEON_SIGNAL env st =
      (case trap_loop (r_trap env)
              (reset_bounds M (r_direction env) (rs_current_low st, rs_current_high st)) [] of
         None \<Rightarrow> None
       | Some (b, ws) \<Rightarrow>
           Some (st\<lparr>rs_current_low := (if r_locked_after env then fst b else 0),
                    rs_current_high := (if r_locked_after env then snd b else M)\<rparr>, ws))"
    using assms by (simp add: rogue_signal_handler_def split: option.splits)
  have fresh: "rogue_signal_handler M DUNGEON_SIGNAL env st =
      (case trap_loop (r_trap env) (0, M) [] of
         None \<Rightarrow> None
       | Some (b, ws) \<Rightarrow>
           Some (st\<lparr>rs_current_low := (if r_locked_after env then fst b else 0),
                    rs_current_high := (if r_locked_after env then snd b else M)\<rparr>, ws))"
    if "r_direction env \<noteq> of_char CHR ''u''" "r_direction env \<noteq> of_char CHR ''d''"
      "r_direction env \<noteq> of_char CHR ''-''"
    unfolding h by (simp only: reset_bounds_fresh [OF that])
  have ongoing: "rogue_signal_handler M DUNGEON_SIGNAL env st =
      (case trap_loop (r_trap env) (rs_current_low st, rs_current_high st) [] of
         None \<Rightarrow> None
       | Some (b, ws) \<Rightarrow>
           Some (st\<lparr>rs_current_low := (if r_locked_after env then fst b else 0),
                    rs_current_high := (if r_locked_after env then snd b else M)\<rparr>, ws))"
    if "r_direction env = of_char CHR ''u'' \<or> r_direction env = of_char CHR ''d''
          \<or> r_direction env = of_char CHR ''-''"
    unfolding h by (simp only: reset_bounds_ongoing [OF that])
  have after: "rs_current_low st' = 0 \<and> rs_current_high st' = M
      \<and> (\<forall>d. reset_bounds M d (rs_current_low st', rs_current_high st') = (0, M))"
    if "rogue_signal_handler M DUNGEON_SIGNAL env st = Some (st', ws)" "\<not> r_locked_after env"
    for st' ws
    using that unfolding h by (auto simp: reset_bounds_full split: option.splits)
  show ?thesis using fresh ongoing after by blast
qed

theorem rogue_trap_bounds_reset_witness:
  "rogue_signal_handler 100 DUNGEON_SIGNAL
     \<lparr>r_running = True, r_locked = True, r_direction = of_char CHR ''t'',
      r_trap = [\<lparr>o_locked = True, o_running = True, o_exit_flag = False, o_timed_out = False,
                 o_direction = of_char CHR ''u'', o_pick = 50\<rparr>,
                \<lparr>o_locked = False, o_running = True, o_exit_flag = False, o_timed_out = False,
                 o_direction = of_char CHR ''-'', o_pick = 75\<rparr>],
      r_locked_after = False, r_treasure = []\<rparr>
     \<lparr>rs_exit_flag = False, rs_current_low = 20, rs_current_high = 30\<rparr>
   = Some (\<lparr>rs_exit_flag = False, rs_current_low = 0, rs_current_high = 100\<rparr>,
           [Write_pick 75, Write_direction (of_char CHR ''t'')])"
proof -
  let ?env = "\<lparr>r_running = True, r_locked = True, r_direction = of_char CHR ''t'',
      r_trap = [\<lparr>o_locked = True, o_running = True, o_exit_flag = False, o_timed_out = False,
                 o_direction = of_char CHR ''u'', o_pick = 50\<rparr>,
                \<lparr>o_locked = False, o_running = True, o_exit_flag = False, o_timed_out = False,
                 o_direction = of_char CHR ''-'', o_pick = 75\<rparr>],
      r_locked_after = False, r_treasure = []\<rparr>"
  let ?st = "\<lparr>rs_exit_flag = False, rs_current_low = 20, rs_current_high = 30\<rparr>"
  have h: "\<not> rs_exit_flag ?st" "r_running ?env" "r_locked ?env" by simp_all
  show ?thesis
    using rogue_trap_bounds_reset [OF h, of 100] by (simp add: trap_body_def)
qed

text \<open>
  C4 as stated fails. An event that arrives after the shutdown flag has been set returns at
  the entry of the handler, and the bounds \<open>(20, 30)\<close> stay although the trap is locked and
  the direction is \<open>t\<close>. And not every episode starts from the full range: a search that is
  abandoned at the deadline with the trap still locked keeps its bounds \<open>(50, 100)\<close>, and
  the next event, which reads \<open>d\<close> on entry, searches on from them.
\<close>

theorem rogue_trap_bounds_reset_counterexample:
  "rogue_signal_handler 100 DUNGEON_SIGNAL
     \<lparr>r_running = True, r_locked = True, r_direction = of_char CHR ''t'', r_trap = [],
      r_locked_after = True, r_treasure = []\<rparr>
     \<lparr>rs_exit_flag = True, rs_current_low = 20, rs_current_high = 30\<rparr>
   = Some (\<lparr>rs_exit_flag = True, rs_current_low = 20, rs_current_high = 30\<rparr>, [])
   \<and> ((20, 30) :: real \<times> real) \<noteq> (0, 100)
   \<and> rogue_signal_handler 100 DUNGEON_SIGNAL
     \<lparr>r_running = True, r_locked = True, r_direction = of_char CHR ''t'',
      r_trap = [\<lparr>o_locked = True, o_running = True, o_exit_flag = False, o_timed_out = False,
                 o_direction = of_char CHR ''u'', o_pick = 50\<rparr>,
                \<lparr>o_locked = True, o_running = True, o_exit_flag = False, o_timed_out = True,
                 o_direction = of_char CHR ''t'', o_pick = 75\<rparr>],
      r_locked_after = True, r_treasure = []\<rparr>
     \<lparr>rs_exit_flag = False, rs_current_low = 0, rs_current_high = 100\<rparr>
   = Some (\<lparr>rs_exit_flag = False, rs_current_low = 50, rs_current_high = 100\<rparr>,
           [Write_pick 75, Write_direction (of_char CHR ''t'')])
   \<and> rogue_signal_handler 100 DUNGEON_SIGNAL
     \<lparr>r_running = True, r_locked = True, r_direction = of_char CHR ''d'',
      r_trap = [\<lparr>o_locked = True, o_running = True, o_exit_flag = False, o_timed_out = False,
                 o_direction = of_char CHR ''d'', o_pick = 75\<rparr>,
                \<lparr>o_locked = True, o_running = True, o_exit_flag = False, o_timed_out = True,
                 o_direction = of_char CHR ''t'', o_pick = 125 / 2\<rparr>],
      r_locked_after = True, r_treasure = []\<rparr>
     \<lparr>rs_exit_flag = False, rs_current_low = 50, rs_current_high = 100\<rparr>
   = Some (\<lparr>rs_exit_flag = False, rs_current_low = 50, rs_current_high = 75\<rparr>,
           [Write_pick (125 / 2), Write_direction (of_char CHR ''t'')])"
  by (simp add: rogue_signal_handler_def reset_bounds_def trap_body_def)

subsection \<open>The treasure room\<close>

text \<open>The loop appends to the effects one store per collected byte, at the indices from the
  count it starts with to the count it ends with, in that order; each store follows a test
  of the same byte of the treasure that found it non-zero, in the same pass.\<close>

lemma collect_loop_effects:
  assumes "collect_loop obs n ws = Some (n', ws')"
  shows "n \<le> n' \<and> (n \<le> 4 \<longrightarrow> n' \<le> 4)
     \<and> (\<exists>f. ws' = ws @ map (\<lambda>i. Write_spoil i (f i)) [n..<n']
           \<and> (\<forall>i. n \<le> i \<and> i < n' \<longrightarrow>
                 (\<exists>ob \<in> set obs. t_treasure_test ob ! i \<noteq> 0 \<and> f i = t_treasure_copy ob ! i)))"
  using assms
proof (induction obs n ws rule: collect_loop.induct)
  case (1 spoils_count ws)
  then show ?case by simp
next
  case (2 ob obs spoils_count ws)
  show ?case
  proof (cases "t_running ob \<and> \<not> t_exit_flag ob \<and> spoils_count < 4")
    case False
    then have "n' = spoils_count" "ws' = ws" using "2.prems" by auto
    then show ?thesis by auto
  next
    case go: True
    show ?thesis
    proof (cases "t_timed_out ob")
      case True
      then have "n' = spoils_count" "ws' = ws" using "2.prems" go by auto
      then show ?thesis by auto
    next
      case in_time: False
      show ?thesis
      proof (cases "t_treasure_test ob ! spoils_count \<noteq> 0")
        case True
        let ?v = "t_treasure_copy ob ! spoils_count"
        have rec: "collect_loop obs (spoils_count + 1) (ws @ [Write_spoil spoils_count ?v])
                   = Some (n', ws')"
          using "2.prems" go in_time True by simp
        from "2.IH"(1) [OF go in_time True rec]
        obtain f where le: "spoils_count + 1 \<le> n'" and n4: "n' \<le> 4"
          and ws': "ws' = (ws @ [Write_spoil spoils_count ?v])
                       @ map (\<lambda>i. Write_spoil i (f i)) [spoils_count + 1..<n']"
          and src: "\<forall>i. spoils_count + 1 \<le> i \<and> i < n' \<longrightarrow>
                 (\<exists>ob \<in> set obs. t_treasure_test ob ! i \<noteq> 0 \<and> f i = t_treasure_copy ob ! i)"
          using go by auto
        let ?g = "f(spoils_count := ?v)"
        have up: "[spoils_count..<n'] = spoils_count # [spoils_count + 1..<n']"
          using le by (simp add: upt_conv_Cons)
        have "ws' = ws @ map (\<lambda>i. Write_spoil i (?g i)) [spoils_count..<n']"
          unfolding up ws' by simp
        moreover have "\<exists>ob' \<in> set (ob # obs). t_treasure_test ob' ! i \<noteq> 0
                          \<and> ?g i = t_treasure_copy ob' ! i"
          if "spoils_count \<le> i \<and> i < n'" for i
        proof (cases "i = spoils_count")
          case True
          then show ?thesis using \<open>t_treasure_test ob ! spoils_count \<noteq> 0\<close> by simp
        next
          case False
          then have "spoils_count + 1 \<le> i \<and> i < n'" using that by simp
          with src obtain ob' where "ob' \<in> set obs" "t_treasure_test ob' ! i \<noteq> 0"
            "f i = t_treasure_copy ob' ! i" by blast
          then show ?thesis using False by auto
        qed
        ultimately show ?thesis using le n4 by (intro conjI exI [of _ ?g]) auto
      next
        case False
        have rec: "collect_loop obs spoils_count ws = Some (n', ws')"
          using "2.prems" go in_time False by simp
        from "2.IH"(2) [OF go in_time _ rec] False
        obtain f where le: "spoils_count \<le> n'" and n4: "spoils_count \<le> 4 \<longrightarrow> n' \<le> 4"
          and ws': "ws' = ws @ map (\<lambda>i. Write_spoil i (f i)) [spoils_count..<n']"
          and src: "\<forall>i. spoils_count \<le> i \<and> i < n' \<longrightarrow>
                 (\<exists>ob \<in> set obs. t_treasure_test ob ! i \<noteq> 0 \<and> f i = t_treasure_copy ob ! i)"
          by auto
        have "\<exists>ob' \<in> set (ob # obs). t_treasure_test ob' ! i \<noteq> 0 \<and> f i = t_treasure_copy ob' ! i"
          if "spoils_count \<le> i \<and> i < n'" for i
          using src that by auto
        then show ?thesis using le n4 ws' by (intro conjI exI [of _ f]) auto
      qed
    qed
  qed
qed

text \<open>The loop is left only when four bytes are collected or a pass read a reason to stop.\<close>

lemma collect_loop_stop_reason:
  assumes "collect_loop obs n ws = Some (n', ws')"
  shows "4 \<le> n' \<or> (\<exists>ob \<in> set obs. \<not> t_running ob \<or> t_exit_flag ob \<or> t_timed_out ob)"
  using assms
proof (induction obs n ws rule: collect_loop.induct)
  case (1 spoils_count ws)
  then show ?case by simp
next
  case (2 ob obs spoils_count ws)
  then show ?case by (auto split: if_splits)
qed

text \<open>The loop is left at the first pass that reads a reason to stop.\<close>

lemma collect_loop_stops:
  "\<not> t_running ob \<or> t_exit_flag ob \<or> t_timed_out ob \<or> 4 \<le> n
   \<Longrightarrow> collect_loop (ob # obs) n ws = Some (n, ws)"
  by auto

lemma collect_loop_terminates:
  assumes "\<exists>ob \<in> set obs. \<not> t_running ob \<or> t_exit_flag ob \<or> t_timed_out ob"
  shows "\<exists>r. collect_loop obs n ws = Some r"
  using assms
proof (induction obs n ws rule: collect_loop.induct)
  case (1 spoils_count ws)
  then show ?case by simp
next
  case (2 ob obs spoils_count ws)
  then show ?case by (cases "\<not> t_running ob \<or> t_exit_flag ob \<or> t_timed_out ob") auto
qed

text \<open>
  C6. Take a call of the handler for \<^verbatim>\<open>SEMAPHORE_SIGNAL\<close> that reaches the treasure room
  (the shutdown flag is unset and \<open>running\<close> is true on entry). When it returns, its
  effects are the clearing of the spoils followed by one store per collected byte, at the
  indices \<open>0, 1, ..\<close> in this order and at most four of them; the byte stored at index
  \<open>i\<close> is byte \<open>i\<close> of the treasure as read for the copy, in a pass whose test had found
  byte \<open>i\<close> of the treasure non-zero; and then four bytes are copied or a pass has read
  that the time is up, that \<open>running\<close> is false or that the shutdown flag is set. The call
  does return if some pass reads one of these three; and a pass that reads one of them, or
  that finds four bytes copied, ends the collection.
\<close>

theorem rogue_collects_in_order:
  assumes "\<not> rs_exit_flag st" and "r_running env"
  shows "(\<forall>st' ws. rogue_signal_handler M SEMAPHORE_SIGNAL env st = Some (st', ws) \<longrightarrow>
           st' = st
           \<and> (\<exists>n f. n \<le> 4
                 \<and> collect_treasure (r_treasure env) = Some (n, ws)
                 \<and> ws = Clear_spoils # map (\<lambda>i. Write_spoil i (f i)) [0..<n]
                 \<and> (\<forall>i < n. \<exists>ob \<in> set (r_treasure env).
                        t_treasure_test ob ! i \<noteq> 0 \<and> f i = t_treasure_copy ob ! i)
                 \<and> (n = 4 \<or> (\<exists>ob \<in> set (r_treasure env).
                        \<not> t_running ob \<or> t_exit_flag ob \<or> t_timed_out ob))))
     \<and> ((\<exists>ob \<in> set (r_treasure env). \<not> t_running ob \<or> t_exit_flag ob \<or> t_timed_out ob) \<longrightarrow>
           (\<exists>st' ws. rogue_signal_handler M SEMAPHORE_SIGNAL env st = Some (st', ws)))
     \<and> (\<forall>ob obs k es. \<not> t_running ob \<or> t_exit_flag ob \<or> t_timed_out ob \<or> k = 4 \<longrightarrow>
           collect_loop (ob # obs) k es = Some (k, es))"
proof -
  have h: "rogue_signal_handler M SEMAPHORE_SIGNAL env st =
      (case collect_treasure (r_treasure env) of None \<Rightarrow> None | Some (n, ws) \<Rightarrow> Some (st, ws))"
    using assms by (simp add: rogue_signal_handler_def)
  have returned: "st' = st
      \<and> (\<exists>n f. n \<le> 4
            \<and> collect_treasure (r_treasure env) = Some (n, ws)
            \<and> ws = Clear_spoils # map (\<lambda>i. Write_spoil i (f i)) [0..<n]
            \<and> (\<forall>i < n. \<exists>ob \<in> set (r_treasure env).
                   t_treasure_test ob ! i \<noteq> 0 \<and> f i = t_treasure_copy ob ! i)
            \<and> (n = 4 \<or> (\<exists>ob \<in> set (r_treasure env).
                   \<not> t_running ob \<or> t_exit_flag ob \<or> t_timed_out ob)))"
    if r: "rogue_signal_handler M SEMAPHORE_SIGNAL env st = Some (st', ws)" for st' ws
  proof -
    from r obtain n where c: "collect_treasure (r_treasure env) = Some (n, ws)" and st: "st' = st"
      unfolding h by (auto split: option.splits)
    then have l: "collect_loop (r_treasure env) 0 [Clear_spoils] = Some (n, ws)"
      by (simp add: collect_treasure_def)
    from collect_loop_effects [OF l]
    obtain f where n4: "n \<le> 4"
      and ws: "ws = [Clear_spoils] @ map (\<lambda>i. Write_spoil i (f i)) [0..<n]"
      and src: "\<forall>i. 0 \<le> i \<and> i < n \<longrightarrow>
         (\<exists>ob \<in> set (r_treasure env). t_treasure_test ob ! i \<noteq> 0 \<and> f i = t_treasure_copy ob ! i)"
      by auto
    have why: "n = 4 \<or> (\<exists>ob \<in> set (r_treasure env).
                    \<not> t_running ob \<or> t_exit_flag ob \<or> t_timed_out ob)"
      using collect_loop_stop_reason [OF l] n4 by auto
    have "\<exists>n f. n \<le> 4
             \<and> collect_treasure (r_treasure env) = Some (n, ws)
             \<and> ws = Clear_spoils # map (\<lambda>i. Write_spoil i (f i)) [0..<n]
             \<and> (\<forall>i < n. \<exists>ob \<in> set (r_treasure env).
                    t_treasure_test ob ! i \<noteq> 0 \<and> f i = t_treasure_copy ob ! i)
             \<and> (n = 4 \<or> (\<exists>ob \<in> set (r_treasure env).
                    \<not> t_running ob \<or> t_exit_flag ob \<or> t_timed_out ob))"
      using n4 c ws src why by (intro exI [of _ n] exI [of _ f]) auto
    then show ?thesis using st by simp
  qed
  have returns: "\<exists>st' ws. rogue_signal_handler M SEMAPHORE_SIGNAL env st = Some (st', ws)"
    if "\<exists>ob \<in> set (r_treasure env). \<not> t_running ob \<or> t_exit_flag ob \<or> t_timed_out ob"
  proof -
    from collect_loop_terminates [OF that, of 0 "[Clear_spoils]"]
    obtain n ws where "collect_treasure (r_treasure env) = Some (n, ws)"
      by (auto simp: collect_treasure_def)
    then show ?thesis unfolding h by simp
  qed
  have stops: "collect_loop (ob # obs) k es = Some (k, es)"
    if "\<not> t_running ob \<or> t_exit_flag ob \<or> t_timed_out ob \<or> k = 4" for ob obs k es
    using that by (intro collect_loop_stops) auto
  show ?thesis using returned returns stops by blast
qed

text \<open>The treasure \<open>GOLD\<close>, revealed one byte per pass, with one idle pass in between.\<close>

theorem rogue_collects_in_order_witness:
  "rogue_signal_handler 100 SEMAPHORE_SIGNAL
     \<lparr>r_running = True, r_locked = False, r_direction = 0, r_trap = [], r_locked_after = False,
      r_treasure =
        [\<lparr>t_running = True, t_exit_flag = False, t_timed_out = False,
          t_treasure_test = [71, 0, 0, 0], t_treasure_copy = [71, 0, 0, 0]\<rparr>,
         \<lparr>t_running = True, t_exit_flag = False, t_timed_out = False,
          t_treasure_test = [71, 0, 0, 0], t_treasure_copy = [71, 79, 0, 0]\<rparr>,
         \<lparr>t_running = True, t_exit_flag = False, t_timed_out = False,
          t_treasure_test = [71, 79, 0, 0], t_treasure_copy = [71, 79, 0, 0]\<rparr>,
         \<lparr>t_running = True, t_exit_flag = False, t_timed_out = False,
          t_treasure_test = [71, 79, 76, 0], t_treasure_copy = [71, 79, 76, 0]\<rparr>,
         \<lparr>t_running = True, t_exit_flag = False, t_timed_out = False,
          t_treasure_test = [71, 79, 76, 68], t_treasure_copy = [71, 79, 76, 68]\<rparr>,
         \<lparr>t_running = True, t_exit_flag = False, t_timed_out = False,
          t_treasure_test = [71, 79, 76, 68], t_treasure_copy = [71, 79, 76, 68]\<rparr>]\<rparr>
     \<lparr>rs_exit_flag = False, rs_current_low = 0, rs_current_high = 100\<rparr>
   = Some (\<lparr>rs_exit_flag = False, rs_current_low = 0, rs_current_high = 100\<rparr>,
           [Clear_spoils, Write_spoil 0 71, Write_spoil 1 79, Write_spoil 2 76, Write_spoil 3 68])
   \<and> (\<exists>n f. n \<le> 4 \<and>
         [Clear_spoils, Write_spoil 0 71, Write_spoil 1 79, Write_spoil 2 76, Write_spoil 3 68]
           = Clear_spoils # map (\<lambda>i. Write_spoil i (f i)) [0..<n])"
proof -
  let ?obs = "[\<lparr>t_running = True, t_exit_flag = False, t_timed_out = False,
          t_treasure_test = [71, 0, 0, 0], t_treasure_copy = [71, 0, 0, 0]\<rparr>,
         \<lparr>t_running = True, t_exit_flag = False, t_timed_out = False,
          t_treasure_test = [71, 0, 0, 0], t_treasure_copy = [71, 79, 0, 0]\<rparr>,
         \<lparr>t_running = True, t_exit_flag = False, t_timed_out = False,
          t_treasure_test = [71, 79, 0, 0], t_treasure_copy = [71, 79, 0, 0]\<rparr>,
         \<lparr>t_running = True, t_exit_flag = False, t_timed_out = False,
          t_treasure_test = [71, 79, 76, 0], t_treasure_copy = [71, 79, 76, 0]\<rparr>,
         \<lparr>t_running = True, t_exit_flag = False, t_timed_out = False,
          t_treasure_test = [71, 79, 76, 68], t_treasure_copy = [71, 79, 76, 68]\<rparr>,
         \<lparr>t_running = True, t_exit_flag = False, t_timed_out = False,
          t_treasure_test = [71, 79, 76, 68], t_treasure_copy = [71, 79, 76, 68]\<rparr>]"
  let ?env = "\<lparr>r_running = True, r_locked = False, r_direction = 0, r_trap = [],
      r_locked_after = False, r_treasure = ?obs\<rparr>"
  let ?st = "\<lparr>rs_exit_flag = False, rs_current_low = 0, rs_current_high = 100\<rparr>"
  let ?ws = "[Clear_spoils, Write_spoil 0 71, Write_spoil 1 79, Write_spoil 2 76, Write_spoil 3 68]"
  have h: "\<not> rs_exit_flag ?st" "r_running ?env" by simp_all
  have c: "collect_treasure ?obs = Some (4, ?ws)" by code_simp
  have t: "r_treasure ?env = ?obs" by simp
  have r: "rogue_signal_handler 100 SEMAPHORE_SIGNAL ?env ?st = Some (?st, ?ws)"
    unfolding rogue_signal_handler_def t c by simp
  from rogue_collects_in_order [OF h, of 100, THEN conjunct1, rule_format, OF r]
  have "\<exists>n f. n \<le> 4 \<and> ?ws = Clear_spoils # map (\<lambda>i. Write_spoil i (f i)) [0..<n]"
  proof (elim conjE exE)
    fix n f
    assume "n \<le> 4" and "?ws = Clear_spoils # map (\<lambda>i. Write_spoil i (f i)) [0..<n]"
    then show ?thesis by (intro exI conjI)
  qed
  then show ?thesis by (rule conjI [OF r])
qed


section \<open>Properties of the Barbarian's and the Wizard's handlers\<close>

text \<open>
  C10. When the Barbarian handles \<^verbatim>\<open>DUNGEON_SIGNAL\<close> with \<open>running\<close> true and its shutdown
  flag unset, the shared block afterwards is the block before with the attack field set to
  the enemy's health: no other field differs. The handler makes no semaphore call and
  returns.
\<close>

theorem barbarian_attack_is_enemy_health:
  assumes "running d" and "\<not> exit_flag"
  shows "barbarian_signal_handler DUNGEON_SIGNAL exit_flag env d =
           (d\<lparr>barbarian_attack := enemy_health d\<rparr>, [Usleep 100], True)
     \<and> barbarian_attack (fst (barbarian_signal_handler DUNGEON_SIGNAL exit_flag env d))
           = enemy_health d
     \<and> fst (barbarian_signal_handler DUNGEON_SIGNAL exit_flag env d)
           \<lparr>barbarian_attack := barbarian_attack d\<rparr> = d"
  using assms by (simp add: barbarian_signal_handler_def)

theorem barbarian_attack_is_enemy_health_witness:
  "barbarian_signal_handler DUNGEON_SIGNAL False
     \<lparr>l_trywait = False, l_wait = Blocked, l_hold = []\<rparr>
     \<lparr>dungeonPID = 1, running = True, enemy_health = 42, barbarian_attack = 7,
      trap_locked = False, trap_direction = 0, rogue_pick = 50, barrier_spell = [],
      wizard_spell = [], treasure = [0, 0, 0, 0], spoils = [0, 0, 0, 0]\<rparr>
   = (\<lparr>dungeonPID = 1, running = True, enemy_health = 42, barbarian_attack = 42,
      trap_locked = False, trap_direction = 0, rogue_pick = 50, barrier_spell = [],
      wizard_spell = [], treasure = [0, 0, 0, 0], spoils = [0, 0, 0, 0]\<rparr>,
      [Usleep 100], True)"
proof -
  let ?d = "\<lparr>dungeonPID = 1, running = True, enemy_health = 42, barbarian_attack = 7,
      trap_locked = False, trap_direction = 0, rogue_pick = 50, barrier_spell = [],
      wizard_spell = [], treasure = [0, 0, 0, 0], spoils = [0, 0, 0, 0]\<rparr>"
  have h: "running ?d" "\<not> False" by simp_all
  from barbarian_attack_is_enemy_health [OF h, of "\<lparr>l_trywait = False, l_wait = Blocked, l_hold = []\<rparr>"]
  show ?thesis by simp
qed

subsection \<open>Holding and releasing a lever\<close>

lemma hold_loop_closed:
  "hold_loop obs ws =
     (ws @ replicate
            (length (takeWhile (\<lambda>ob. h_running ob \<and> h_spoil3 ob = 0 \<and> \<not> h_exit_flag ob) obs))
            (Usleep 100000),
      \<exists>ob \<in> set obs. \<not> h_running ob \<or> h_spoil3 ob \<noteq> 0 \<or> h_exit_flag ob)"
proof (induction obs arbitrary: ws)
  case Nil
  then show ?case by simp
next
  case (Cons ob obs)
  show ?case
  proof (cases "h_running ob \<and> h_spoil3 ob = 0 \<and> \<not> h_exit_flag ob")
    case True
    then show ?thesis by (simp add: Cons.IH replicate_app_Cons_same)
  next
    case False
    then show ?thesis by auto
  qed
qed

lemma hold_and_release_closed:
  "hold_and_release l obs =
     (replicate
        (length (takeWhile (\<lambda>ob. h_running ob \<and> h_spoil3 ob = 0 \<and> \<not> h_exit_flag ob) obs))
        (Usleep 100000)
      @ (if \<exists>ob \<in> set obs. \<not> h_running ob \<or> h_spoil3 ob \<noteq> 0 \<or> h_exit_flag ob
         then [Sem_post l] else []),
      \<exists>ob \<in> set obs. \<not> h_running ob \<or> h_spoil3 ob \<noteq> 0 \<or> h_exit_flag ob)"
  by (simp add: hold_and_release_def hold_loop_closed)

text \<open>
  C7 (as amended). Take a \<^verbatim>\<open>SEMAPHORE_SIGNAL\<close> that a process handles (its shutdown flag is
  unset and \<open>running\<close> is true on entry). The Barbarian's first call is the blocking
  \<^verbatim>\<open>sem_wait\<close> on lever one. The Wizard's first call is the non-blocking \<^verbatim>\<open>sem_trywait\<close>
  on lever two, and it calls \<^verbatim>\<open>sem_wait\<close> on lever one if and only if that attempt
  failed. A process whose wait succeeded sleeps once for every pass in which it reads
  \<open>running\<close> true, the fourth byte of the spoils zero and its shutdown flag unset; at the
  first pass that reads otherwise it posts the lever it acquired, and no other, and
  returns. A process whose wait failed or has not returned posts nothing. The shared
  block is left as it is.
\<close>

theorem lever_handlers_acquire_hold_release:
  assumes "\<not> exit_flag" and "running d"
  shows "(let sleeps = replicate
            (length (takeWhile (\<lambda>ob. h_running ob \<and> h_spoil3 ob = 0 \<and> \<not> h_exit_flag ob)
               (l_hold env))) (Usleep 100000);
           released = (\<exists>ob \<in> set (l_hold env).
                          \<not> h_running ob \<or> h_spoil3 ob \<noteq> 0 \<or> h_exit_flag ob);
           wait1 = (case l_wait env of
                      Acquired \<Rightarrow> (Sem_wait Lever1 # sleeps
                                     @ (if released then [Sem_post Lever1] else []), released)
                    | Failed \<Rightarrow> ([Sem_wait Lever1, Usleep 100], True)
                    | Blocked \<Rightarrow> ([Sem_wait Lever1], False))
         in barbarian_signal_handler SEMAPHORE_SIGNAL exit_flag env d = (d, wait1)
          \<and> wizard_signal_handler sg SPELL_BUFFER_SIZE decoded_spell SEMAPHORE_SIGNAL exit_flag env d =
              (if l_trywait env
               then (d, Sem_trywait Lever2 # sleeps @ (if released then [Sem_post Lever2] else []),
                     released)
               else (d, Sem_trywait Lever2 # fst wait1, snd wait1)))"
proof -
  have w: "wait_lever1 (l_wait env) (l_hold env) =
      (case l_wait env of
         Acquired \<Rightarrow>
           (Sem_wait Lever1 # replicate
              (length (takeWhile (\<lambda>ob. h_running ob \<and> h_spoil3 ob = 0 \<and> \<not> h_exit_flag ob)
                 (l_hold env))) (Usleep 100000)
              @ (if \<exists>ob \<in> set (l_hold env).
                       \<not> h_running ob \<or> h_spoil3 ob \<noteq> 0 \<or> h_exit_flag ob
                 then [Sem_post Lever1] else []),
            \<exists>ob \<in> set (l_hold env). \<not> h_running ob \<or> h_spoil3 ob \<noteq> 0 \<or> h_exit_flag ob)
       | Failed \<Rightarrow> ([Sem_wait Lever1, Usleep 100], True)
       | Blocked \<Rightarrow> ([Sem_wait Lever1], False))"
    by (simp add: wait_lever1_def hold_and_release_closed split: wait_result.splits)
  have b: "barbarian_signal_handler SEMAPHORE_SIGNAL exit_flag env d =
           (d, wait_lever1 (l_wait env) (l_hold env))"
    using assms by (simp add: barbarian_signal_handler_def)
  have z: "wizard_signal_handler sg SPELL_BUFFER_SIZE decoded_spell SEMAPHORE_SIGNAL exit_flag env d =
      (if l_trywait env
       then (d, Sem_trywait Lever2 # fst (hold_and_release Lever2 (l_hold env)),
             snd (hold_and_release Lever2 (l_hold env)))
       else (d, Sem_trywait Lever2 # fst (wait_lever1 (l_wait env) (l_hold env)),
             snd (wait_lever1 (l_wait env) (l_hold env))))"
    using assms by (simp add: wizard_signal_handler_def)
  show ?thesis
    unfolding Let_def b z w by (simp add: hold_and_release_closed)
qed

theorem lever_handlers_acquire_hold_release_witness:
  "barbarian_signal_handler SEMAPHORE_SIGNAL False
     \<lparr>l_trywait = False, l_wait = Acquired,
      l_hold = [\<lparr>h_running = True, h_spoil3 = 0, h_exit_flag = False\<rparr>,
                \<lparr>h_running = True, h_spoil3 = 68, h_exit_flag = False\<rparr>]\<rparr>
     \<lparr>dungeonPID = 1, running = True, enemy_health = 0, barbarian_attack = 0,
      trap_locked = False, trap_direction = 0, rogue_pick = 50, barrier_spell = [],
      wizard_spell = [], treasure = [71, 79, 76, 68], spoils = [0, 0, 0, 0]\<rparr>
   = (\<lparr>dungeonPID = 1, running = True, enemy_health = 0, barbarian_attack = 0,
      trap_locked = False, trap_direction = 0, rogue_pick = 50, barrier_spell = [],
      wizard_spell = [], treasure = [71, 79, 76, 68], spoils = [0, 0, 0, 0]\<rparr>,
      [Sem_wait Lever1, Usleep 100000, Sem_post Lever1], True)
   \<and> wizard_signal_handler True 8 [] SEMAPHORE_SIGNAL False
     \<lparr>l_trywait = False, l_wait = Acquired,
      l_hold = [\<lparr>h_running = True, h_spoil3 = 0, h_exit_flag = False\<rparr>,
                \<lparr>h_running = True, h_spoil3 = 68, h_exit_flag = False\<rparr>]\<rparr>
     \<lparr>dungeonPID = 1, running = True, enemy_health = 0, barbarian_attack = 0,
      trap_locked = False, trap_direction = 0, rogue_pick = 50, barrier_spell = [],
      wizard_spell = [], treasure = [71, 79, 76, 68], spoils = [0, 0, 0, 0]\<rparr>
   = (\<lparr>dungeonPID = 1, running = True, enemy_health = 0, barbarian_attack = 0,
      trap_locked = False, trap_direction = 0, rogue_pick = 50, barrier_spell = [],
      wizard_spell = [], treasure = [71, 79, 76, 68], spoils = [0, 0, 0, 0]\<rparr>,
      [Sem_trywait Lever2, Sem_wait Lever1, Usleep 100000, Sem_post Lever1], True)
   \<and> wizard_signal_handler True 8 [] SEMAPHORE_SIGNAL False
     \<lparr>l_trywait = True, l_wait = Blocked,
      l_hold = [\<lparr>h_running = False, h_spoil3 = 0, h_exit_flag = False\<rparr>]\<rparr>
     \<lparr>dungeonPID = 1, running = True, enemy_health = 0, barbarian_attack = 0,
      trap_locked = False, trap_direction = 0, rogue_pick = 50, barrier_spell = [],
      wizard_spell = [], treasure = [71, 79, 76, 68], spoils = [0, 0, 0, 0]\<rparr>
   = (\<lparr>dungeonPID = 1, running = True, enemy_health = 0, barbarian_attack = 0,
      trap_locked = False, trap_direction = 0, rogue_pick = 50, barrier_spell = [],
      wizard_spell = [], treasure = [71, 79, 76, 68], spoils = [0, 0, 0, 0]\<rparr>,
      [Sem_trywait Lever2, Sem_post Lever2], True)"
proof -
  let ?d = "\<lparr>dungeonPID = 1, running = True, enemy_health = 0, barbarian_attack = 0,
      trap_locked = False, trap_direction = 0, rogue_pick = 50, barrier_spell = [],
      wizard_spell = [], treasure = [71, 79, 76, 68], spoils = [0, 0, 0, 0]\<rparr>"
  let ?hold = "[\<lparr>h_running = True, h_spoil3 = 0, h_exit_flag = False\<rparr>,
                \<lparr>h_running = True, h_spoil3 = 68, h_exit_flag = False\<rparr>]"
  have h: "\<not> False" "running ?d" by simp_all
  note first = lever_handlers_acquire_hold_release [OF h,
    of "\<lparr>l_trywait = False, l_wait = Acquired, l_hold = ?hold\<rparr>" True 8 "[]"]
  note second = lever_handlers_acquire_hold_release [OF h,
    of "\<lparr>l_trywait = True, l_wait = Blocked,
         l_hold = [\<lparr>h_running = False, h_spoil3 = 0, h_exit_flag = False\<rparr>]\<rparr>" True 8 "[]"]
  from first second show ?thesis by (simp add: Let_def)
qed

text \<open>
  C7 as stated fails. A process that holds a lever also releases it when its own shutdown
  flag is set, with the fourth byte of the spoils still zero and \<open>running\<close> still true; and
  a process whose shutdown flag is set when the signal arrives makes no semaphore call.
\<close>

theorem lever_handlers_acquire_hold_release_counterexample:
  "barbarian_signal_handler SEMAPHORE_SIGNAL False
     \<lparr>l_trywait = False, l_wait = Acquired,
      l_hold = [\<lparr>h_running = True, h_spoil3 = 0, h_exit_flag = True\<rparr>]\<rparr>
     \<lparr>dungeonPID = 1, running = True, enemy_health = 0, barbarian_attack = 0,
      trap_locked = False, trap_direction = 0, rogue_pick = 50, barrier_spell = [],
      wizard_spell = [], treasure = [0, 0, 0, 0], spoils = [0, 0, 0, 0]\<rparr>
   = (\<lparr>dungeonPID = 1, running = True, enemy_health = 0, barbarian_attack = 0,
      trap_locked = False, trap_direction = 0, rogue_pick = 50, barrier_spell = [],
      wizard_spell = [], treasure = [0, 0, 0, 0], spoils = [0, 0, 0, 0]\<rparr>,
      [Sem_wait Lever1, Sem_post Lever1], True)
   \<and> fst (snd (barbarian_signal_handler SEMAPHORE_SIGNAL True
     \<lparr>l_trywait = False, l_wait = Acquired, l_hold = []\<rparr>
     \<lparr>dungeonPID = 1, running = True, enemy_health = 0, barbarian_attack = 0,
      trap_locked = False, trap_direction = 0, rogue_pick = 50, barrier_spell = [],
      wizard_spell = [], treasure = [0, 0, 0, 0], spoils = [0, 0, 0, 0]\<rparr>)) = []"
  by (simp add: barbarian_signal_handler_def wait_lever1_def hold_and_release_def)


section \<open>Mutual exclusion on the levers\<close>

lemma lever_inv_initial: "lever_inv initial_levers"
  by (simp add: lever_inv_def initial_levers_def)

lemma lever_inv_step:
  assumes "lever_inv s" and "lever_step a s = Some s'"
  shows "lever_inv s'"
proof (cases a)
  case B_signal
  then show ?thesis using assms by (auto simp: lever_inv_def split: if_splits)
next
  case B_acquire
  then show ?thesis using assms by (auto simp: lever_inv_def split: if_splits)
next
  case B_fail
  then show ?thesis using assms by (auto simp: lever_inv_def split: if_splits)
next
  case B_release
  then show ?thesis using assms by (auto simp: lever_inv_def split: if_splits)
next
  case B_release_fail
  then show ?thesis using assms by (auto simp: lever_inv_def split: if_splits)
next
  case W_signal
  then show ?thesis using assms by (auto simp: lever_inv_def split: if_splits)
next
  case W_try_ok
  then show ?thesis using assms by (auto simp: lever_inv_def split: if_splits)
next
  case W_try_fail
  then show ?thesis using assms by (auto simp: lever_inv_def split: if_splits)
next
  case W_acquire
  then show ?thesis using assms by (auto simp: lever_inv_def split: if_splits)
next
  case W_fail
  then show ?thesis using assms by (auto simp: lever_inv_def split: if_splits)
next
  case W_release
  then show ?thesis using assms by (auto simp: lever_inv_def split: if_splits)
next
  case W_release_fail
  then show ?thesis using assms by (auto simp: lever_inv_def split: if_splits)
next
  case R_step
  then show ?thesis using assms by simp
qed

lemma lever_inv_run:
  "lever_inv s \<Longrightarrow> run_schedule sched s = Some s' \<Longrightarrow> lever_inv s'"
proof (induction sched arbitrary: s)
  case Nil
  then show ?case by simp
next
  case (Cons a sched)
  then show ?case by (auto split: option.splits dest: lever_inv_step)
qed

lemma lever_inv_holders:
  assumes "lever_inv s"
  shows "card (holders s Lever1) \<le> 1" and "card (holders s Lever2) \<le> 1"
  using assms by (auto simp: lever_inv_def holders_def split: if_splits)

text \<open>
  C8. Whatever the schedule of the three processes from the state in which both semaphores
  have the value 1 and no process is in its lever code, in the state reached at most one
  process holds lever one, at most one holds lever two, and the holders of the two levers
  are at most two together.
\<close>

theorem levers_mutual_exclusion:
  assumes "run_schedule sched initial_levers = Some s"
  shows "card (holders s Lever1) \<le> 1 \<and> card (holders s Lever2) \<le> 1
     \<and> card (holders s Lever1) + card (holders s Lever2) \<le> 2"
proof -
  have "lever_inv s" using lever_inv_initial assms by (rule lever_inv_run)
  then have "card (holders s Lever1) \<le> 1" "card (holders s Lever2) \<le> 1"
    by (rule lever_inv_holders)+
  then show ?thesis by simp
qed

text \<open>Both levers held at once: the Barbarian on lever one, the Wizard on lever two.\<close>

theorem levers_mutual_exclusion_witness:
  "run_schedule [B_signal, W_signal, R_step, B_acquire, W_try_ok] initial_levers
     = Some \<lparr>sem1 = 0, sem2 = 0, bpc = B_hold1, wpc = W_hold2\<rparr>
   \<and> card (holders \<lparr>sem1 = 0, sem2 = 0, bpc = B_hold1, wpc = W_hold2\<rparr> Lever1) \<le> 1
   \<and> card (holders \<lparr>sem1 = 0, sem2 = 0, bpc = B_hold1, wpc = W_hold2\<rparr> Lever2) \<le> 1
   \<and> holders \<lparr>sem1 = 0, sem2 = 0, bpc = B_hold1, wpc = W_hold2\<rparr> Lever1 = {Barbarian}
   \<and> holders \<lparr>sem1 = 0, sem2 = 0, bpc = B_hold1, wpc = W_hold2\<rparr> Lever2 = {Wizard}"
proof -
  have r: "run_schedule [B_signal, W_signal, R_step, B_acquire, W_try_ok] initial_levers
     = Some \<lparr>sem1 = 0, sem2 = 0, bpc = B_hold1, wpc = W_hold2\<rparr>"
    by (simp add: initial_levers_def)
  from levers_mutual_exclusion [OF r] r show ?thesis
    by (simp add: holders_def)
qed

text \<open>While the Barbarian holds lever one, the Wizard's wait on it cannot return 0.\<close>

lemma wizard_waits_for_barbarian:
  assumes "run_schedule sched initial_levers = Some s" and "bpc s = B_hold1"
  shows "lever_step W_acquire s = None"
proof -
  have "lever_inv s" using lever_inv_initial assms(1) by (rule lever_inv_run)
  then have "sem1 s = 0" using assms(2) by (simp add: lever_inv_def)
  then show ?thesis by simp
qed


subsection \<open>The handlers make the semaphore calls of the lever states\<close>

text \<open>
  The semaphore calls of one call of a handler, in order: the Barbarian waits for lever one
  and posts it after a wait that returned 0; the Wizard tries lever two and posts it, or
  waits for lever one after a failed attempt and posts it after a wait that returned 0; the
  Rogue makes none.
\<close>

lemma sem_calls_hold_and_release:
  "sem_calls (fst (hold_and_release l obs)) =
     (if snd (hold_and_release l obs) then [Sem_post l] else [])"
  by (simp add: hold_and_release_closed sem_calls_def)

lemma sem_calls_wait_lever1:
  "sem_calls (fst (wait_lever1 r obs)) =
     (if r = Acquired \<and> snd (wait_lever1 r obs) then [Sem_wait Lever1, Sem_post Lever1]
      else [Sem_wait Lever1])"
  using sem_calls_hold_and_release [of Lever1 obs]
  by (cases r) (auto simp: wait_lever1_def sem_calls_def)

lemma barbarian_sem_calls:
  "sem_calls (fst (snd (barbarian_signal_handler signum exit_flag env d)))
     \<in> {[], [Sem_wait Lever1], [Sem_wait Lever1, Sem_post Lever1]}"
proof (cases "\<not> exit_flag \<and> running d \<and> signum = SEMAPHORE_SIGNAL")
  case True
  then have "fst (snd (barbarian_signal_handler signum exit_flag env d)) =
             fst (wait_lever1 (l_wait env) (l_hold env))"
    by (simp add: barbarian_signal_handler_def)
  then show ?thesis using sem_calls_wait_lever1 [of "l_wait env" "l_hold env"] by simp
next
  case False
  then have "sem_calls (fst (snd (barbarian_signal_handler signum exit_flag env d))) = []"
    by (auto simp: barbarian_signal_handler_def sem_calls_def)
  then show ?thesis by simp
qed

lemma wizard_sem_calls:
  "sem_calls (fst (snd (wizard_signal_handler sg n buf signum exit_flag env d)))
     \<in> {[], [Sem_trywait Lever2], [Sem_trywait Lever2, Sem_post Lever2],
         [Sem_trywait Lever2, Sem_wait Lever1],
         [Sem_trywait Lever2, Sem_wait Lever1, Sem_post Lever1]}"
proof (cases "\<not> exit_flag \<and> running d \<and> signum = SEMAPHORE_SIGNAL")
  case sem: True
  show ?thesis
  proof (cases "l_trywait env")
    case True
    then have "fst (snd (wizard_signal_handler sg n buf signum exit_flag env d)) =
               Sem_trywait Lever2 # fst (hold_and_release Lever2 (l_hold env))"
      using sem by (simp add: wizard_signal_handler_def)
    then have "sem_calls (fst (snd (wizard_signal_handler sg n buf signum exit_flag env d))) =
               Sem_trywait Lever2 # sem_calls (fst (hold_and_release Lever2 (l_hold env)))"
      by (simp add: sem_calls_def)
    then show ?thesis by (simp add: sem_calls_hold_and_release)
  next
    case False
    then have "fst (snd (wizard_signal_handler sg n buf signum exit_flag env d)) =
               Sem_trywait Lever2 # fst (wait_lever1 (l_wait env) (l_hold env))"
      using sem by (simp add: wizard_signal_handler_def)
    then have "sem_calls (fst (snd (wizard_signal_handler sg n buf signum exit_flag env d))) =
               Sem_trywait Lever2 # sem_calls (fst (wait_lever1 (l_wait env) (l_hold env)))"
      by (simp add: sem_calls_def)
    then show ?thesis by (simp add: sem_calls_wait_lever1)
  qed
next
  case False
  then consider "exit_flag" | "\<not> exit_flag" "\<not> running d"
    | "\<not> exit_flag" "running d" "signum = DUNGEON_SIGNAL"
    | "\<not> exit_flag" "running d" "signum = SIGINT \<or> signum = OTHER_SIGNAL"
    by (cases signum) auto
  then have "sem_calls (fst (snd (wizard_signal_handler sg n buf signum exit_flag env d))) = []"
  proof cases
    case 1
    then show ?thesis by (simp add: wizard_signal_handler_def sem_calls_def)
  next
    case 2
    then show ?thesis by (simp add: wizard_signal_handler_def sem_calls_def)
  next
    case 3
    then show ?thesis by (simp add: wizard_signal_handler_def sem_calls_def Let_def)
  next
    case 4
    then show ?thesis by (auto simp: wizard_signal_handler_def sem_calls_def)
  qed
  then show ?thesis by simp
qed

lemma trap_body_sem_calls: "sem_calls (snd (snd (trap_body ob b))) = []"
  by (simp add: trap_body_def sem_calls_def Let_def)

lemma trap_loop_sem_calls:
  "trap_loop obs b ws = Some (b', ws') \<Longrightarrow> sem_calls ws' = sem_calls ws"
proof (induction obs arbitrary: b ws)
  case Nil
  then show ?case by simp
next
  case (Cons ob obs)
  obtain c b1 w where t: "trap_body ob b = (c, b1, w)" by (cases "trap_body ob b") auto
  then have w: "sem_calls w = []" using trap_body_sem_calls [of ob b] by simp
  show ?case
  proof (cases "o_locked ob \<and> o_running ob \<and> \<not> o_exit_flag ob")
    case False
    then show ?thesis using Cons.prems by auto
  next
    case True
    show ?thesis
    proof (cases c)
      case Break
      then show ?thesis using Cons.prems True t w by (auto simp: sem_calls_def)
    next
      case Continue
      then have "trap_loop obs b1 (ws @ w) = Some (b', ws')" using Cons.prems True t by simp
      then have "sem_calls ws' = sem_calls (ws @ w)" by (rule Cons.IH)
      then show ?thesis using w by (simp add: sem_calls_def)
    qed
  qed
qed

lemma collect_loop_sem_calls:
  assumes "collect_loop obs n ws = Some (n', ws')"
  shows "sem_calls ws' = sem_calls ws"
proof -
  from collect_loop_effects [OF assms]
  obtain f where "ws' = ws @ map (\<lambda>i. Write_spoil i (f i)) [n..<n']" by blast
  moreover have "filter is_sem_call (map (\<lambda>i. Write_spoil i (f i)) [n..<n']) = []"
    by (simp add: filter_empty_conv)
  ultimately show ?thesis by (simp add: sem_calls_def)
qed

lemma rogue_sem_calls:
  assumes "rogue_signal_handler M signum env st = Some (st', ws)"
  shows "sem_calls ws = []"
proof (cases "signum \<noteq> SIGINT \<and> \<not> rs_exit_flag st \<and> r_running env")
  case False
  then have "ws = []" using assms by (auto simp: rogue_signal_handler_def split: if_splits)
  then show ?thesis by (simp add: sem_calls_def)
next
  case go: True
  show ?thesis
  proof (cases signum)
    case SIGINT
    then show ?thesis using go by simp
  next
    case DUNGEON_SIGNAL
    show ?thesis
    proof (cases "r_locked env")
      case True
      then obtain b where "trap_loop (r_trap env)
          (reset_bounds M (r_direction env) (rs_current_low st, rs_current_high st)) []
          = Some (b, ws)"
        using assms go DUNGEON_SIGNAL
        by (auto simp: rogue_signal_handler_def split: option.splits if_splits)
      then have "sem_calls ws = sem_calls []" by (rule trap_loop_sem_calls)
      then show ?thesis by (simp add: sem_calls_def)
    next
      case False
      then have "ws = []" using assms go DUNGEON_SIGNAL
        by (simp add: rogue_signal_handler_def)
      then show ?thesis by (simp add: sem_calls_def)
    qed
  next
    case SEMAPHORE_SIGNAL
    then obtain n where "collect_loop (r_treasure env) 0 [Clear_spoils] = Some (n, ws)"
      using assms go
      by (auto simp: rogue_signal_handler_def collect_treasure_def split: option.splits)
    then have "sem_calls ws = sem_calls [Clear_spoils]" by (rule collect_loop_sem_calls)
    then show ?thesis by (simp add: sem_calls_def)
  next
    case OTHER_SIGNAL
    then have "ws = []" using assms go by (simp add: rogue_signal_handler_def)
    then show ?thesis by (simp add: sem_calls_def)
  qed
qed

end
